theory Spec2Isabelle
  imports Main "HOL-Library.Word" "HOL-Library.Multiset"
begin

unbundle bit_operations_syntax

section \<open>Constants and build configuration of main.cpp\<close>

type_synonym u8 = "8 word"
type_synonym u32 = "32 word"
type_synonym u64 = "64 word"

text \<open>
  Indices are \<^verbatim>\<open>s32\<close> loop variables in the source; they are modelled as \<^typ>\<open>int\<close>.
  Every index the program computes stays far below \<open>2 ^ 31\<close>, so no wrap-around is written.
\<close>

definition MAX_BOARD_SIZE :: int where "MAX_BOARD_SIZE = 16"
definition NUM_VALID_CELLS :: nat where "NUM_VALID_CELLS = 64"
definition NUM_PIECES :: nat where "NUM_PIECES = 12"
definition MAX_PIECE_SIZE :: int where "MAX_PIECE_SIZE = 4"
definition MAX_BALLS :: nat where "MAX_BALLS = 5"
definition NUM_ROTATIONS :: nat where "NUM_ROTATIONS = 4"

text \<open>
  \<^verbatim>\<open>#define FAST 1\<close>, \<^verbatim>\<open>#define WITH_STATS !FAST\<close>, and \<^verbatim>\<open>NDEBUG\<close> is defined exactly
  when \<^verbatim>\<open>FAST\<close> is set (lines 30 to 36). The functions below take the value of \<^verbatim>\<open>FAST\<close> as
  a parameter, so that both builds can be compared; \<open>FAST\<close> is the value in the repository.
\<close>

definition FAST :: bool where "FAST = True"
definition WITH_STATS :: "bool \<Rightarrow> bool" where "WITH_STATS fast = (\<not> fast)"
definition NDEBUG :: "bool \<Rightarrow> bool" where "NDEBUG fast = fast"

section \<open>Cell values\<close>

text \<open>\<^verbatim>\<open>enum cell_value : u8\<close>: the enumerators are the bytes 0 to 14.\<close>

type_synonym cell_value = u8

definition Empty :: cell_value where "Empty = 0"
definition Invalid :: cell_value where "Invalid = 1"
definition Blocked :: cell_value where "Blocked = 2"
definition Piece01 :: cell_value where "Piece01 = 3"
definition Piece12 :: cell_value where "Piece12 = 14"

definition IsPiece :: "cell_value \<Rightarrow> bool" where
  "IsPiece CellValue = (CellValue \<ge> Piece01 \<and> CellValue \<le> Piece12)"

definition CellValueToPieceIndex :: "cell_value \<Rightarrow> nat" where
  "CellValueToPieceIndex CellValue = unat (CellValue AND 15)"

definition PieceIndexToCellValue :: "nat \<Rightarrow> cell_value" where
  "PieceIndexToCellValue PieceIdx = Piece01 + of_nat PieceIdx"

section \<open>Piece definitions and their symmetries\<close>

text \<open>
  \<^verbatim>\<open>struct piece_definition { u8 Balls[4][4]; }\<close> is a map from (row, column) to a byte;
  the cells of the array are the pairs with both indices in 0 to 3.
  \<^verbatim>\<open>struct board { cell_value Cells[16][16]; }\<close> likewise, with indices 0 to 15.
\<close>

type_synonym piece_definition = "int \<times> int \<Rightarrow> u8"
type_synonym board = "int \<times> int \<Rightarrow> cell_value"

text \<open>\<^verbatim>\<open>struct cell_ref { u8 RowIdx, ColIdx; }\<close>; the values stored are below 16.\<close>

type_synonym cell_ref = "int \<times> int"

text \<open>The index pairs of two nested \<^verbatim>\<open>for\<close> loops, outer loop first.\<close>

definition piece_cells :: "(int \<times> int) list" where
  "piece_cells = List.product [0..MAX_PIECE_SIZE - 1] [0..MAX_PIECE_SIZE - 1]"

definition board_cells :: "(int \<times> int) list" where
  "board_cells = List.product [0..MAX_BOARD_SIZE - 1] [0..MAX_BOARD_SIZE - 1]"

text \<open>A piece definition whose cells are all 0, the start value of a destination array.\<close>

definition zero_definition :: piece_definition where
  "zero_definition = (\<lambda>_. 0)"

definition Rotate :: "piece_definition \<Rightarrow> piece_definition \<Rightarrow> piece_definition" where
  "Rotate From To =
     fold (\<lambda>(fromRowIdx, fromColIdx) T.
             T((fromColIdx, (MAX_PIECE_SIZE - 1) - fromRowIdx) := From (fromRowIdx, fromColIdx)))
          piece_cells To"

definition Flip :: "piece_definition \<Rightarrow> piece_definition \<Rightarrow> piece_definition" where
  "Flip From To =
     fold (\<lambda>(fromRowIdx, fromColIdx) T.
             T(((MAX_PIECE_SIZE - 1) - fromRowIdx, fromColIdx) := From (fromRowIdx, fromColIdx)))
          piece_cells To"

text \<open>The first loop of \<^verbatim>\<open>PushUpAndLeft\<close>: the first row and column with a set cell.\<close>

definition FindMin :: "piece_definition \<Rightarrow> int \<times> int" where
  "FindMin Definition =
     fold (\<lambda>(RowIdx, ColIdx) (MinRowIdx, MinColIdx).
             if Definition (RowIdx, ColIdx) \<noteq> 0
             then (if RowIdx \<le> MinRowIdx then RowIdx else MinRowIdx,
                   if ColIdx \<le> MinColIdx then ColIdx else MinColIdx)
             else (MinRowIdx, MinColIdx))
          piece_cells (MAX_PIECE_SIZE - 1, MAX_PIECE_SIZE - 1)"

text \<open>The second loop shifts in place; the last two clear the rows and columns left over.\<close>

definition ShiftUpLeft :: "int \<Rightarrow> int \<Rightarrow> piece_definition \<Rightarrow> piece_definition" where
  "ShiftUpLeft MinRowIdx MinColIdx Definition =
     fold (\<lambda>(RowIdx, ColIdx) D. D((RowIdx - MinRowIdx, ColIdx - MinColIdx) := D (RowIdx, ColIdx)))
          (List.product [MinRowIdx..MAX_PIECE_SIZE - 1] [MinColIdx..MAX_PIECE_SIZE - 1]) Definition"

definition ClearRows :: "int \<Rightarrow> piece_definition \<Rightarrow> piece_definition" where
  "ClearRows MinRowIdx Definition =
     fold (\<lambda>(RowIdx, ColIdx) D. D((RowIdx, ColIdx) := 0))
          (List.product [MAX_PIECE_SIZE - MinRowIdx..MAX_PIECE_SIZE - 1] [0..MAX_PIECE_SIZE - 1])
          Definition"

definition ClearCols :: "int \<Rightarrow> piece_definition \<Rightarrow> piece_definition" where
  "ClearCols MinColIdx Definition =
     fold (\<lambda>(ColIdx, RowIdx) D. D((RowIdx, ColIdx) := 0))
          (List.product [MAX_PIECE_SIZE - MinColIdx..MAX_PIECE_SIZE - 1] [0..MAX_PIECE_SIZE - 1])
          Definition"

definition PushUpAndLeft :: "piece_definition \<Rightarrow> piece_definition" where
  "PushUpAndLeft Definition =
     (case FindMin Definition of (MinRowIdx, MinColIdx) \<Rightarrow>
        ClearCols MinColIdx (ClearRows MinRowIdx (ShiftUpLeft MinRowIdx MinColIdx Definition)))"

definition ComputePackedRepresentation :: "piece_definition \<Rightarrow> u32" where
  "ComputePackedRepresentation Definition =
     fold (\<lambda>(RowIdx, ColIdx) Packed. push_bit 1 Packed OR ucast (Definition (RowIdx, ColIdx)))
          piece_cells 0"

text \<open>The cells of the array that hold a ball, as \<^verbatim>\<open>if (Definition.Balls[RowIdx][ColIdx])\<close> tests them.\<close>

definition occupied :: "piece_definition \<Rightarrow> (int \<times> int) set" where
  "occupied Definition = set (filter (\<lambda>x. Definition x \<noteq> 0) piece_cells)"

section \<open>The solver's piece table and \<^verbatim>\<open>solver::Initialize\<close>\<close>

type_synonym piece_orientation = "cell_ref list"

record search_piece =
  Orientations :: "piece_orientation list"
  NumOrientations :: nat
  NumBalls :: nat

record expanded_representation =
  Definition :: piece_definition
  Packed :: u32

text \<open>
  \<^verbatim>\<open>intermediate_representation\<close>; its fields \<^verbatim>\<open>Orientations\<close> and \<^verbatim>\<open>NumOrientations\<close> carry
  the prefix \<open>Unique\<close> here, since \<open>search_piece\<close> has fields of the same names.
\<close>

record intermediate_representation =
  UniqueOrientations :: "expanded_representation list"
  NumUniqueOrientations :: nat

text \<open>
  Lines 320 to 339: the eight variants of one piece. The array \<^verbatim>\<open>PieceOrientations\<close> is not
  initialised in the source; \<open>Rotate\<close> and \<open>Flip\<close> write every cell of their destination,
  so the model starts the destinations from \<open>zero_definition\<close>.
\<close>

definition ExpandPiece :: "piece_definition \<Rightarrow> piece_definition list" where
  "ExpandPiece Piece =
     (let A0 = (replicate (2 * NUM_ROTATIONS) zero_definition)[0 := Piece];
          A1 = fold (\<lambda>OrientationIdx A.
                      A[OrientationIdx + 1 := Rotate (A ! OrientationIdx) (A ! (OrientationIdx + 1))])
                    [0..<NUM_ROTATIONS - 1] A0;
          A2 = A1[NUM_ROTATIONS := Flip (A1 ! 0) (A1 ! NUM_ROTATIONS)];
          A3 = fold (\<lambda>OrientationIdx A.
                      A[NUM_ROTATIONS + OrientationIdx + 1 :=
                          Rotate (A ! (NUM_ROTATIONS + OrientationIdx))
                                 (A ! (NUM_ROTATIONS + OrientationIdx + 1))])
                    [0..<NUM_ROTATIONS - 1] A2
      in A3)"

text \<open>Lines 369 to 393: keep a variant unless a kept one has the same packed value.\<close>

definition UniquePiece :: "expanded_representation list \<Rightarrow> intermediate_representation" where
  "UniquePiece PieceOrientation =
     fold (\<lambda>OrientationIdx IntermediatePiece.
             let Orientation = PieceOrientation ! OrientationIdx;
                 IsOrientationUnique =
                   (\<not> list_ex (\<lambda>OtherOrientationIdx.
                          Packed Orientation =
                          Packed (UniqueOrientations IntermediatePiece ! OtherOrientationIdx))
                        [0..<NumUniqueOrientations IntermediatePiece])
             in if IsOrientationUnique
                then IntermediatePiece
                       \<lparr>UniqueOrientations := UniqueOrientations IntermediatePiece @ [Orientation],
                        NumUniqueOrientations := NumUniqueOrientations IntermediatePiece + 1\<rparr>
                else IntermediatePiece)
          [0..<2 * NUM_ROTATIONS]
          \<lparr>UniqueOrientations = [], NumUniqueOrientations = 0\<rparr>"

text \<open>
  Lines 403 to 421: the balls of one orientation, in row-major order, counted from
  \<open>NumBalls\<close> (which the caller resets to 0 for every orientation).
\<close>

definition ConvertOrientation :: "piece_definition \<Rightarrow> nat \<Rightarrow> piece_orientation \<times> nat" where
  "ConvertOrientation IntermediateOrientation NumBalls0 =
     fold (\<lambda>(RowIdx, ColIdx) (Balls, NumBalls).
             if IntermediateOrientation (RowIdx, ColIdx) \<noteq> 0
             then (Balls @ [(RowIdx, ColIdx)], NumBalls + 1)
             else (Balls, NumBalls))
          piece_cells ([], NumBalls0)"

definition ConvertPiece :: "intermediate_representation \<Rightarrow> search_piece" where
  "ConvertPiece IntermediatePiece =
     fold (\<lambda>OrientationIdx SearchPiece.
             case ConvertOrientation
                    (Definition (UniqueOrientations IntermediatePiece ! OrientationIdx)) 0
             of (Balls, NumBalls') \<Rightarrow>
               SearchPiece\<lparr>Orientations := Orientations SearchPiece @ [Balls],
                           NumBalls := NumBalls'\<rparr>)
          [0..<NumUniqueOrientations IntermediatePiece]
          \<lparr>Orientations = [], NumOrientations = NumUniqueOrientations IntermediatePiece,
           NumBalls = 0\<rparr>"

text \<open>\<^verbatim>\<open>solver::Initialize\<close>, phase by phase, for the twelve entries of \<^verbatim>\<open>Pieces\<close>.\<close>

definition Initialize :: "piece_definition list \<Rightarrow> search_piece list" where
  "Initialize Pieces =
     (let PieceOrientations = map (\<lambda>PieceIdx. ExpandPiece (Pieces ! PieceIdx)) [0..<NUM_PIECES];
          Pushed = map (map PushUpAndLeft) PieceOrientations;
          WithPacked = map (map (\<lambda>D. \<lparr>Definition = D, Packed = ComputePackedRepresentation D\<rparr>))
                           Pushed;
          IntermediatePieces = map UniquePiece WithPacked
      in map ConvertPiece IntermediatePieces)"

section \<open>\<^verbatim>\<open>solver::Solve\<close>\<close>

text \<open>
  The ways a run ends without returning. \<open>AssertionFailed\<close>: a failed \<^verbatim>\<open>assert\<close>, in a build
  without \<^verbatim>\<open>NDEBUG\<close>. \<open>ArrayOverrun\<close>: a write past the end of the local array
  \<^verbatim>\<open>InputBoardEmptyCells\<close> (line 445), which no statement of \<^verbatim>\<open>Solve\<close> guards against;
  from there on the language leaves the behaviour of the program open, and the model says
  nothing more about the run.
\<close>

datatype error = AssertionFailed | ArrayOverrun

text \<open>
  \<^verbatim>\<open>search_state\<close>. The 12-bit field \<^verbatim>\<open>RemainingPieceBitFlags\<close> is a \<^typ>\<open>12 word\<close>:
  the source computes on \<^verbatim>\<open>unsigned\<close> and the store keeps the low 12 bits, which is what the
  same bitwise operation on 12 bits gives. \<^verbatim>\<open>EmptyCellIdx\<close> is a \<^verbatim>\<open>u8\<close>; its increment is
  written modulo 256.
\<close>

record search_state =
  Board :: board
  RemainingPieceBitFlags :: "12 word"
  EmptyCellIdx :: nat

text \<open>The variables that the search loop changes.\<close>

record solve_state =
  SearchStates :: "search_state list"
  OutSolutions :: "board list"
  OutNumBoardStatesTested :: u64
  OutNumOrientationsTested :: u64
  OutNumBallsTested :: u64

text \<open>
  What stays fixed during the loop: the build, the piece table, the board size and the
  list of the input board's empty cells. \<open>Indeterminate\<close> stands for the value of the
  locals \<^verbatim>\<open>RowIdx\<close>, \<^verbatim>\<open>ColIdx\<close> (declared without initialiser, line 509) when the scan of
  lines 511 to 520 ends without assigning them.
\<close>

record solve_env =
  Fast :: bool
  Indeterminate :: "int \<times> int"
  SearchPieces :: "search_piece list"
  NumRows :: int
  NumCols :: int
  InputBoardEmptyCells :: "cell_ref list"

text \<open>
  Lines 436 to 451: the empty cells of the grid in the order of the two loops. The source
  stores them in the array \<^verbatim>\<open>InputBoardEmptyCells\<close> of \<open>NUM_VALID_CELLS\<close> entries, one write
  per empty cell and no check of the index: on a board with more than \<open>NUM_VALID_CELLS\<close>
  empty cells the write for the 65th is past the end of the array. \<open>Solve\<close> below tests the
  length of this list and ends with \<open>ArrayOverrun\<close> in that case, so the list is the content
  of the array whenever the run goes on.

  The board of the model is a function on all index pairs, where the source has an array
  of 16 rows and columns that it reads only at cells inside \<^verbatim>\<open>NumRows\<close> and \<^verbatim>\<open>NumCols\<close>;
  \<^verbatim>\<open>main\<close> computes both from the grid, so that they are at most 16.
\<close>

definition EmptyCellsOf :: "board \<Rightarrow> cell_ref list" where
  "EmptyCellsOf InputBoard = filter (\<lambda>(RowIdx, ColIdx). InputBoard (RowIdx, ColIdx) = Empty) board_cells"

text \<open>Lines 466 to 483.\<close>

definition InitialFlags :: "board \<Rightarrow> int \<Rightarrow> int \<Rightarrow> 12 word" where
  "InitialFlags InputBoard NumRows' NumCols' =
     fold (\<lambda>(RowIdx, ColIdx) Flags.
             let CellValue = InputBoard (RowIdx, ColIdx)
             in if IsPiece CellValue
                then Flags AND NOT (push_bit (CellValueToPieceIndex CellValue) 1)
                else Flags)
          (List.product [0..NumRows' - 1] [0..NumCols' - 1])
          (fold (\<lambda>PieceIdx Flags. Flags OR push_bit PieceIdx 1) [0..<NUM_PIECES] 0)"

text \<open>Lines 511 to 520: the value of the local \<^verbatim>\<open>EmptyCellIdx\<close> when the scan ends.\<close>

function FindEmptyCell :: "board \<Rightarrow> cell_ref list \<Rightarrow> nat \<Rightarrow> nat" where
  "FindEmptyCell B Cells EmptyCellIdx' =
     (if EmptyCellIdx' < length Cells
      then (if B (Cells ! EmptyCellIdx') = Empty then EmptyCellIdx'
            else FindEmptyCell B Cells (EmptyCellIdx' + 1))
      else EmptyCellIdx')"
  by pat_completeness auto
termination
  by (relation "measure (\<lambda>(B, Cells, i). length Cells - i)") auto

text \<open>Lines 527 to 533.\<close>

definition RemainingPieceIdxs :: "12 word \<Rightarrow> nat list" where
  "RemainingPieceIdxs Flags =
     filter (\<lambda>PieceIdx. drop_bit PieceIdx Flags AND 1 \<noteq> 0) [0..<NUM_PIECES]"

text \<open>Lines 556 to 571: the validity test, stopping at the first ball that fails.\<close>

fun TestBalls ::
  "solve_env \<Rightarrow> board \<Rightarrow> int \<times> int \<Rightarrow> int \<times> int \<Rightarrow> piece_orientation \<Rightarrow> nat list \<Rightarrow> u64
   \<Rightarrow> bool \<times> u64" where
  "TestBalls env B Target Offset Orientation [] NumBallsTested = (True, NumBallsTested)"
| "TestBalls env B Target Offset Orientation (TestBallIdx # Rest) NumBallsTested =
     (let NumBallsTested' =
            (if WITH_STATS (Fast env) then NumBallsTested + 1 else NumBallsTested);
          BallRowIdx = fst Target + fst Offset + fst (Orientation ! TestBallIdx);
          BallColIdx = snd Target + snd Offset + snd (Orientation ! TestBallIdx);
          IsValidCellIdx = (BallRowIdx \<ge> 0 \<and> BallRowIdx < NumRows env
                            \<and> BallColIdx \<ge> 0 \<and> BallColIdx < NumCols env)
      in if \<not> (IsValidCellIdx \<and> B (BallRowIdx, BallColIdx) = Empty)
         then (False, NumBallsTested')
         else TestBalls env B Target Offset Orientation Rest NumBallsTested')"

text \<open>Lines 578 to 583.\<close>

definition PlaceBalls ::
  "board \<Rightarrow> int \<times> int \<Rightarrow> int \<times> int \<Rightarrow> piece_orientation \<Rightarrow> nat \<Rightarrow> cell_value \<Rightarrow> board" where
  "PlaceBalls B Target Offset Orientation NumBalls' NewCellValue =
     fold (\<lambda>BallIdx B'.
             B'((fst Target + fst Offset + fst (Orientation ! BallIdx),
                 snd Target + snd Offset + snd (Orientation ! BallIdx)) := NewCellValue))
          [0..<NumBalls'] B"

text \<open>Lines 575 to 585: the state after the placement.\<close>

definition NewSearchState ::
  "solve_env \<Rightarrow> search_state \<Rightarrow> int \<times> int \<Rightarrow> nat \<Rightarrow> nat \<Rightarrow> nat \<Rightarrow> search_state" where
  "NewSearchState env SearchState Target PieceIdx OrientationIdx PlacedBallIdx =
     (let Piece = SearchPieces env ! PieceIdx;
          Orientation = Orientations Piece ! OrientationIdx;
          Offset = (- fst (Orientation ! PlacedBallIdx), - snd (Orientation ! PlacedBallIdx))
      in SearchState
           \<lparr>Board := PlaceBalls (Board SearchState) Target Offset Orientation (NumBalls Piece)
                        (PieceIndexToCellValue PieceIdx),
            RemainingPieceBitFlags :=
              RemainingPieceBitFlags SearchState AND NOT (push_bit PieceIdx 1),
            EmptyCellIdx := (EmptyCellIdx SearchState + 1) mod 256\<rparr>)"

text \<open>Lines 551 to 595: one anchor ball of one orientation of one piece.\<close>

definition TryPlacement ::
  "solve_env \<Rightarrow> search_state \<Rightarrow> int \<times> int \<Rightarrow> bool \<Rightarrow> nat \<Rightarrow> nat \<Rightarrow> nat \<Rightarrow> solve_state
   \<Rightarrow> solve_state" where
  "TryPlacement env SearchState Target IsLastPiece PieceIdx OrientationIdx PlacedBallIdx st =
     (let Piece = SearchPieces env ! PieceIdx;
          Orientation = Orientations Piece ! OrientationIdx;
          Offset = (- fst (Orientation ! PlacedBallIdx), - snd (Orientation ! PlacedBallIdx));
          st1 = (if WITH_STATS (Fast env)
                 then st\<lparr>OutNumOrientationsTested := OutNumOrientationsTested st + 1\<rparr>
                 else st)
      in case TestBalls env (Board SearchState) Target Offset Orientation [0..<NumBalls Piece]
                (OutNumBallsTested st1)
         of (CanPlace, NumBallsTested) \<Rightarrow>
           let st2 = st1\<lparr>OutNumBallsTested := NumBallsTested\<rparr>
           in if CanPlace
              then (let New = NewSearchState env SearchState Target PieceIdx OrientationIdx
                                PlacedBallIdx
                    in if \<not> IsLastPiece
                       then st2\<lparr>SearchStates := SearchStates st2 @ [New]\<rparr>
                       else st2\<lparr>OutSolutions := OutSolutions st2 @ [Board New]\<rparr>)
              else st2)"

text \<open>Lines 524 to 598: every remaining piece, every orientation, every anchor ball.\<close>

definition TryPieces :: "solve_env \<Rightarrow> search_state \<Rightarrow> int \<times> int \<Rightarrow> solve_state \<Rightarrow> solve_state" where
  "TryPieces env SearchState Target st =
     (let RemaningPieceIdxs = RemainingPieceIdxs (RemainingPieceBitFlags SearchState);
          NumRemainingPieces = length RemaningPieceIdxs;
          IsLastPiece = (NumRemainingPieces = 1)
      in fold (\<lambda>RemainingIdx.
                 let PieceIdx = RemaningPieceIdxs ! RemainingIdx;
                     Piece = SearchPieces env ! PieceIdx
                 in fold (\<lambda>OrientationIdx.
                            fold (\<lambda>PlacedBallIdx.
                                    TryPlacement env SearchState Target IsLastPiece PieceIdx
                                      OrientationIdx PlacedBallIdx)
                                 [0..<NumBalls Piece])
                         [0..<NumOrientations Piece])
              [0..<NumRemainingPieces] st)"

text \<open>Lines 501 to 598: one pass through the body of the \<^verbatim>\<open>while\<close> loop.\<close>

definition SolveStep :: "solve_env \<Rightarrow> solve_state \<Rightarrow> error + solve_state" where
  "SolveStep env st =
     (let st1 = (if WITH_STATS (Fast env)
                 then st\<lparr>OutNumBoardStatesTested := OutNumBoardStatesTested st + 1\<rparr>
                 else st);
          SearchState = last (SearchStates st1);
          st2 = st1\<lparr>SearchStates := butlast (SearchStates st1)\<rparr>;
          EmptyCellIdx' = FindEmptyCell (Board SearchState) (InputBoardEmptyCells env)
                            (EmptyCellIdx SearchState);
          Found = (EmptyCellIdx' < length (InputBoardEmptyCells env));
          Target = (if Found then InputBoardEmptyCells env ! EmptyCellIdx' else Indeterminate env)
      in if \<not> NDEBUG (Fast env) \<and> \<not> Found then Inl AssertionFailed
         else Inr (TryPieces env SearchState Target st2))"

lemma set_piece_cells: "set piece_cells = {(r, c). 0 \<le> r \<and> r \<le> 3 \<and> 0 \<le> c \<and> c \<le> 3}"
  by (auto simp: piece_cells_def MAX_PIECE_SIZE_def)

lemma distinct_piece_cells: "distinct piece_cells"
  by (simp add: piece_cells_def distinct_product)

text \<open>Writes through an injective index map, reading from another array.\<close>

lemma fold_write_miss:
  assumes F: "\<And>x T. F x T = T(g x := h x)"
  shows "y \<notin> g ` set xs \<Longrightarrow> fold F xs T y = T y"
  by (induction xs arbitrary: T) (auto simp: F)

lemma fold_write_hit:
  assumes F: "\<And>x T. F x T = T(g x := h x)"
  shows "inj_on g (set xs) \<Longrightarrow> x \<in> set xs \<Longrightarrow> fold F xs T (g x) = h x"
proof (induction xs arbitrary: T)
  case Nil
  then show ?case by simp
next
  case (Cons a xs)
  show ?case
  proof (cases "x \<in> set xs")
    case True
    then show ?thesis using Cons by simp
  next
    case False
    then have xa: "x = a" using Cons.prems by simp
    have "g a \<notin> g ` set xs" using Cons.prems(1) False xa by (auto simp: inj_on_def)
    then have "fold F xs (F a T) (g a) = F a T (g a)" by (rule fold_write_miss [OF F])
    moreover have "F a T (g a) = h a" by (simp add: F)
    moreover have "fold F (a # xs) T = fold F xs (F a T)" by simp
    ultimately show ?thesis using xa by (simp only:)
  qed
qed

lemma Rotate_apply:
  "Rotate From To (r, c) =
     (if 0 \<le> r \<and> r \<le> 3 \<and> 0 \<le> c \<and> c \<le> 3 then From (3 - c, r) else To (r, c))"
proof -
  define g where "g = (\<lambda>(fr :: int, fc :: int). (fc, 3 - fr))"
  define h where "h = (\<lambda>(fr :: int, fc :: int). From (fr, fc))"
  define F where "F = (\<lambda>(fromRowIdx, fromColIdx) T.
             T((fromColIdx, (MAX_PIECE_SIZE - 1) - fromRowIdx) := From (fromRowIdx, fromColIdx)))"
  have F: "\<And>x T. F x T = T(g x := h x)"
    by (simp add: F_def g_def h_def MAX_PIECE_SIZE_def case_prod_unfold)
  have R: "Rotate From To = fold F piece_cells To"
    by (simp add: Rotate_def F_def)
  have inj: "inj_on g (set piece_cells)" by (auto simp: inj_on_def g_def)
  show ?thesis
  proof (cases "0 \<le> r \<and> r \<le> 3 \<and> 0 \<le> c \<and> c \<le> 3")
    case True
    then have m: "(3 - c, r) \<in> set piece_cells" by (simp add: set_piece_cells)
    have "fold F piece_cells To (g (3 - c, r)) = h (3 - c, r)"
      by (rule fold_write_hit [OF F inj m])
    then show ?thesis using True by (simp add: R g_def h_def)
  next
    case False
    then have "(r, c) \<notin> g ` set piece_cells" by (auto simp: set_piece_cells g_def)
    then have "fold F piece_cells To (r, c) = To (r, c)" by (rule fold_write_miss [OF F])
    then show ?thesis using False by (auto simp: R)
  qed
qed

lemma Flip_apply:
  "Flip From To (r, c) =
     (if 0 \<le> r \<and> r \<le> 3 \<and> 0 \<le> c \<and> c \<le> 3 then From (3 - r, c) else To (r, c))"
proof -
  define g where "g = (\<lambda>(fr :: int, fc :: int). (3 - fr, fc))"
  define h where "h = (\<lambda>(fr :: int, fc :: int). From (fr, fc))"
  define F where "F = (\<lambda>(fromRowIdx, fromColIdx) T.
             T(((MAX_PIECE_SIZE - 1) - fromRowIdx, fromColIdx) := From (fromRowIdx, fromColIdx)))"
  have F: "\<And>x T. F x T = T(g x := h x)"
    by (simp add: F_def g_def h_def MAX_PIECE_SIZE_def case_prod_unfold)
  have R: "Flip From To = fold F piece_cells To"
    by (simp add: Flip_def F_def)
  have inj: "inj_on g (set piece_cells)" by (auto simp: inj_on_def g_def)
  show ?thesis
  proof (cases "0 \<le> r \<and> r \<le> 3 \<and> 0 \<le> c \<and> c \<le> 3")
    case True
    then have m: "(3 - r, c) \<in> set piece_cells" by (simp add: set_piece_cells)
    have "fold F piece_cells To (g (3 - r, c)) = h (3 - r, c)"
      by (rule fold_write_hit [OF F inj m])
    then show ?thesis using True by (simp add: R g_def h_def)
  next
    case False
    then have "(r, c) \<notin> g ` set piece_cells" by (auto simp: set_piece_cells g_def)
    then have "fold F piece_cells To (r, c) = To (r, c)" by (rule fold_write_miss [OF F])
    then show ?thesis using False by (auto simp: R)
  qed
qed

text \<open>In-place copies: no destination is a source that is read later.\<close>

lemma fold_move_miss:
  assumes F: "\<And>x T. F x T = T(g x := T x)"
  shows "y \<notin> g ` set xs \<Longrightarrow> fold F xs T y = T y"
  by (induction xs arbitrary: T) (auto simp: F)

lemma fold_move_hit:
  assumes F: "\<And>x T. F x T = T(g x := T x)"
  shows "inj_on g (set xs) \<Longrightarrow> sorted_wrt (\<lambda>a b. g a \<noteq> b) xs \<Longrightarrow> x \<in> set xs \<Longrightarrow>
   fold F xs T (g x) = T x"
proof (induction xs arbitrary: T)
  case Nil
  then show ?case by simp
next
  case (Cons a xs)
  show ?case
  proof (cases "x \<in> set xs")
    case True
    have "fold F xs (F a T) (g x) = (F a T) x"
      using Cons True by simp
    moreover have "g a \<noteq> x" using Cons.prems(2) True by auto
    then have "F a T x = T x" by (simp add: F)
    moreover have "fold F (a # xs) T = fold F xs (F a T)" by simp
    ultimately show ?thesis by (simp only:)
  next
    case False
    then have xa: "x = a" using Cons.prems by simp
    have "g a \<notin> g ` set xs" using Cons.prems(1) False xa by (auto simp: inj_on_def)
    then have "fold F xs (F a T) (g a) = F a T (g a)" by (rule fold_move_miss [OF F])
    moreover have "F a T (g a) = T a" by (simp add: F)
    moreover have "fold F (a # xs) T = fold F xs (F a T)" by simp
    ultimately show ?thesis using xa by (simp only:)
  qed
qed

lemma sorted_wrt_product:
  assumes "sorted_wrt (<) (xs :: int list)" "sorted_wrt (<) (ys :: int list)"
  shows "sorted_wrt (\<lambda>(a, b) (c, d). a < c \<or> (a = c \<and> b < d)) (List.product xs ys)"
  using assms
  by (induction xs) (auto simp: sorted_wrt_append sorted_wrt_map)

lemma occupied_iff:
  "(r, c) \<in> occupied d \<longleftrightarrow> 0 \<le> r \<and> r \<le> 3 \<and> 0 \<le> c \<and> c \<le> 3 \<and> d (r, c) \<noteq> 0"
  by (auto simp: occupied_def set_piece_cells)

lemma finite_occupied: "finite (occupied d)"
  by (simp add: occupied_def)

lemma FindMin_fold_min:
  "fold (\<lambda>(RowIdx, ColIdx) (MinRowIdx :: int, MinColIdx :: int).
             if d (RowIdx, ColIdx) \<noteq> (0 :: u8)
             then (if RowIdx \<le> MinRowIdx then RowIdx else MinRowIdx,
                   if ColIdx \<le> MinColIdx then ColIdx else MinColIdx)
             else (MinRowIdx, MinColIdx)) xs (m, n)
   = (fold min (map fst (filter (\<lambda>x. d x \<noteq> 0) xs)) m,
      fold min (map snd (filter (\<lambda>x. d x \<noteq> 0) xs)) n)"
proof (induction xs arbitrary: m n)
  case Nil
  then show ?case by simp
next
  case (Cons x xs)
  obtain r c where x: "x = (r, c)" by (cases x)
  show ?case unfolding x by (simp add: Cons min_def)
qed

lemma FindMin_eq:
  "FindMin d = (Min (insert 3 (fst ` occupied d)), Min (insert 3 (snd ` occupied d)))"
proof -
  have "\<And>ys (m :: int). fold min ys m = Min (insert m (set ys))"
    using Min.set_eq_fold by (metis list.simps(15))
  then show ?thesis
    by (simp add: FindMin_def FindMin_fold_min occupied_def MAX_PIECE_SIZE_def)
qed

lemma FindMin_range:
  assumes "FindMin d = (mr, mc)"
  shows "0 \<le> mr \<and> mr \<le> 3 \<and> 0 \<le> mc \<and> mc \<le> 3"
proof -
  have fr: "finite (insert 3 (fst ` occupied d))" and fc: "finite (insert 3 (snd ` occupied d))"
    by (simp_all add: finite_occupied)
  have mr: "mr = Min (insert 3 (fst ` occupied d))" and mc: "mc = Min (insert 3 (snd ` occupied d))"
    using assms by (simp_all add: FindMin_eq)
  have "mr \<in> insert 3 (fst ` occupied d)" unfolding mr by (rule Min_in [OF fr]) simp
  moreover have "mc \<in> insert 3 (snd ` occupied d)" unfolding mc by (rule Min_in [OF fc]) simp
  ultimately show ?thesis by (auto simp: occupied_iff)
qed

lemma FindMin_le:
  assumes "FindMin d = (mr, mc)" "(r, c) \<in> occupied d"
  shows "mr \<le> r \<and> mc \<le> c"
proof -
  have "Min (insert 3 (fst ` occupied d)) \<le> r"
    by (rule Min_le) (use assms(2) in \<open>auto simp: finite_occupied intro: rev_image_eqI\<close>)
  moreover have "Min (insert 3 (snd ` occupied d)) \<le> c"
    by (rule Min_le) (use assms(2) in \<open>auto simp: finite_occupied intro: rev_image_eqI\<close>)
  ultimately show ?thesis using assms(1) by (simp add: FindMin_eq)
qed

lemma FindMin_empty:
  "occupied d = {} \<Longrightarrow> FindMin d = (3, 3)"
  by (simp add: FindMin_eq)

lemma FindMin_attained:
  assumes "FindMin d = (mr, mc)" "occupied d \<noteq> {}"
  shows "(\<exists>c. (mr, c) \<in> occupied d) \<and> (\<exists>r. (r, mc) \<in> occupied d)"
proof -
  have ne: "fst ` occupied d \<noteq> {}" "snd ` occupied d \<noteq> {}" using assms(2) by auto
  have fin: "finite (fst ` occupied d)" "finite (snd ` occupied d)" by (simp_all add: finite_occupied)
  have le3: "\<And>r. r \<in> fst ` occupied d \<Longrightarrow> r \<le> 3" "\<And>c. c \<in> snd ` occupied d \<Longrightarrow> c \<le> 3"
    by (auto simp: occupied_iff)
  have "Min (fst ` occupied d) \<in> fst ` occupied d" by (rule Min_in [OF fin(1) ne(1)])
  then have "Min (fst ` occupied d) \<le> 3" by (rule le3(1))
  then have "Min (insert 3 (fst ` occupied d)) = Min (fst ` occupied d)"
    by (simp add: Min_insert [OF fin(1) ne(1)] min_def)
  then have "mr \<in> fst ` occupied d" using assms(1) Min_in [OF fin(1) ne(1)] by (simp add: FindMin_eq)
  moreover
  have "Min (snd ` occupied d) \<in> snd ` occupied d" by (rule Min_in [OF fin(2) ne(2)])
  then have "Min (snd ` occupied d) \<le> 3" by (rule le3(2))
  then have "Min (insert 3 (snd ` occupied d)) = Min (snd ` occupied d)"
    by (simp add: Min_insert [OF fin(2) ne(2)] min_def)
  then have "mc \<in> snd ` occupied d" using assms(1) Min_in [OF fin(2) ne(2)] by (simp add: FindMin_eq)
  ultimately show ?thesis by force
qed

lemma ShiftUpLeft_apply:
  assumes "0 \<le> mr" "mr \<le> 3" "0 \<le> mc" "mc \<le> 3"
  shows "ShiftUpLeft mr mc d (r, c) =
     (if 0 \<le> r \<and> r \<le> 3 - mr \<and> 0 \<le> c \<and> c \<le> 3 - mc then d (r + mr, c + mc) else d (r, c))"
proof -
  define g where "g = (\<lambda>(RowIdx :: int, ColIdx :: int). (RowIdx - mr, ColIdx - mc))"
  define F where "F = (\<lambda>(RowIdx, ColIdx) (D :: piece_definition).
      D((RowIdx - mr, ColIdx - mc) := D (RowIdx, ColIdx)))"
  define xs where "xs = List.product [mr..3] [mc..3]"
  have F: "\<And>x T. F x T = T(g x := T x)"
    by (simp add: F_def g_def case_prod_unfold)
  have S: "ShiftUpLeft mr mc d = fold F xs d"
    by (simp add: ShiftUpLeft_def F_def xs_def MAX_PIECE_SIZE_def)
  have set_xs: "set xs = {(a, b). mr \<le> a \<and> a \<le> 3 \<and> mc \<le> b \<and> b \<le> 3}"
    by (auto simp: xs_def)
  have inj: "inj_on g (set xs)" by (auto simp: inj_on_def g_def)
  have "sorted_wrt (\<lambda>(a, b) (c, d). a < c \<or> (a = c \<and> b < d)) xs"
    unfolding xs_def by (rule sorted_wrt_product) (rule sorted_wrt_upto)+
  then have ok: "sorted_wrt (\<lambda>a b. g a \<noteq> b) xs"
    by (rule sorted_wrt_mono_rel [rotated]) (use assms in \<open>auto simp: g_def\<close>)
  show ?thesis
  proof (cases "0 \<le> r \<and> r \<le> 3 - mr \<and> 0 \<le> c \<and> c \<le> 3 - mc")
    case True
    then have m: "(r + mr, c + mc) \<in> set xs" by (simp add: set_xs)
    have "fold F xs d (g (r + mr, c + mc)) = d (r + mr, c + mc)"
      by (rule fold_move_hit [OF F inj ok m])
    then show ?thesis using True by (simp add: S g_def)
  next
    case False
    then have "(r, c) \<notin> g ` set xs" by (auto simp: set_xs g_def)
    then have "fold F xs d (r, c) = d (r, c)" by (rule fold_move_miss [OF F])
    then show ?thesis using False by (auto simp: S)
  qed
qed

lemma fold_clear:
  assumes F: "\<And>x T. F x T = T(g x := 0)"
  shows "fold F xs T y = (if y \<in> g ` set xs then 0 else T y)"
  by (induction xs arbitrary: T) (auto simp: F)

lemma ClearRows_apply:
  "ClearRows mr d (r, c) = (if 4 - mr \<le> r \<and> r \<le> 3 \<and> 0 \<le> c \<and> c \<le> 3 then 0 else d (r, c))"
proof -
  define F where "F = (\<lambda>(RowIdx :: int, ColIdx :: int) (D :: piece_definition). D((RowIdx, ColIdx) := 0))"
  have F: "\<And>x T. F x T = T(id x := 0)" by (simp add: F_def case_prod_unfold)
  have "ClearRows mr d = fold F (List.product [4 - mr..3] [0..3]) d"
    by (simp add: ClearRows_def F_def MAX_PIECE_SIZE_def)
  then show ?thesis by (simp add: fold_clear [OF F])
qed

lemma ClearCols_apply:
  "ClearCols mc d (r, c) = (if 4 - mc \<le> c \<and> c \<le> 3 \<and> 0 \<le> r \<and> r \<le> 3 then 0 else d (r, c))"
proof -
  define F where "F = (\<lambda>(ColIdx :: int, RowIdx :: int) (D :: piece_definition). D((RowIdx, ColIdx) := 0))"
  have F: "\<And>x T. F x T = T(prod.swap x := 0)" by (simp add: F_def case_prod_unfold prod.swap_def)
  have "ClearCols mc d = fold F (List.product [4 - mc..3] [0..3]) d"
    by (simp add: ClearCols_def F_def MAX_PIECE_SIZE_def)
  then show ?thesis by (auto simp: fold_clear [OF F] image_iff)
qed

lemma PushUpAndLeft_apply:
  assumes "FindMin d = (mr, mc)"
  shows "PushUpAndLeft d (r, c) =
     (if 0 \<le> r \<and> r \<le> 3 \<and> 0 \<le> c \<and> c \<le> 3
      then (if r \<le> 3 - mr \<and> c \<le> 3 - mc then d (r + mr, c + mc) else 0)
      else d (r, c))"
proof -
  have rg: "0 \<le> mr" "mr \<le> 3" "0 \<le> mc" "mc \<le> 3" using FindMin_range [OF assms] by simp_all
  show ?thesis
    using rg by (auto simp: PushUpAndLeft_def assms ClearCols_apply ClearRows_apply ShiftUpLeft_apply)
qed

lemma occupied_PushUpAndLeft:
  assumes "FindMin d = (mr, mc)"
  shows "occupied (PushUpAndLeft d) = (\<lambda>(r, c). (r - mr, c - mc)) ` occupied d"
proof (rule set_eqI)
  fix x :: "int \<times> int"
  obtain r c where x: "x = (r, c)" by (cases x)
  have rg: "0 \<le> mr" "mr \<le> 3" "0 \<le> mc" "mc \<le> 3" using FindMin_range [OF assms] by simp_all
  show "x \<in> occupied (PushUpAndLeft d) \<longleftrightarrow> x \<in> (\<lambda>(r, c). (r - mr, c - mc)) ` occupied d"
  proof
    assume "x \<in> occupied (PushUpAndLeft d)"
    then have "(r + mr, c + mc) \<in> occupied d"
      using rg by (auto simp: x occupied_iff PushUpAndLeft_apply [OF assms] split: if_splits)
    then show "x \<in> (\<lambda>(r, c). (r - mr, c - mc)) ` occupied d"
      unfolding x by (rule rev_image_eqI) simp
  next
    assume "x \<in> (\<lambda>(r, c). (r - mr, c - mc)) ` occupied d"
    then obtain r' c' where o: "(r', c') \<in> occupied d" and e: "r = r' - mr" "c = c' - mc"
      by (auto simp: x)
    have "mr \<le> r' \<and> mc \<le> c'" by (rule FindMin_le [OF assms o])
    then show "x \<in> occupied (PushUpAndLeft d)"
      using o e rg by (auto simp: x occupied_iff PushUpAndLeft_apply [OF assms])
  qed
qed

lemma FindMin_zero:
  assumes "(0, c0) \<in> occupied d" "(r0, 0) \<in> occupied d"
  shows "FindMin d = (0, 0)"
proof -
  obtain mr mc where f: "FindMin d = (mr, mc)" by (cases "FindMin d")
  have "mr \<le> 0 \<and> mc \<le> c0" "mr \<le> r0 \<and> mc \<le> 0"
    by (rule FindMin_le [OF f assms(1)], rule FindMin_le [OF f assms(2)])
  then show ?thesis using FindMin_range [OF f] f by simp
qed

lemma PushUpAndLeft_fixed:
  assumes "FindMin d = (0, 0)"
  shows "PushUpAndLeft d = d"
proof (rule ext)
  fix x :: "int \<times> int"
  obtain r c where x: "x = (r, c)" by (cases x)
  show "PushUpAndLeft d x = d x"
    unfolding x by (simp add: PushUpAndLeft_apply [OF assms])
qed

lemma PushUpAndLeft_idem: "PushUpAndLeft (PushUpAndLeft d) = PushUpAndLeft d"
proof -
  obtain mr mc where f: "FindMin d = (mr, mc)" by (cases "FindMin d")
  show ?thesis
  proof (cases "occupied d = {}")
    case True
    then have e: "occupied (PushUpAndLeft d) = {}" by (simp add: occupied_PushUpAndLeft [OF f])
    have f3: "FindMin d = (3, 3)" "FindMin (PushUpAndLeft d) = (3, 3)"
      using True e by (simp_all add: FindMin_empty)
    have z: "\<And>r c. 0 \<le> r \<and> r \<le> 3 \<and> 0 \<le> c \<and> c \<le> 3 \<Longrightarrow> PushUpAndLeft d (r, c) = 0"
    proof -
      fix r c :: int
      assume "0 \<le> r \<and> r \<le> 3 \<and> 0 \<le> c \<and> c \<le> 3"
      moreover have "(r, c) \<notin> occupied (PushUpAndLeft d)" using e by simp
      ultimately show "PushUpAndLeft d (r, c) = 0" by (simp add: occupied_iff)
    qed
    show ?thesis
    proof (rule ext)
      fix x :: "int \<times> int"
      obtain r c where x: "x = (r, c)" by (cases x)
      show "PushUpAndLeft (PushUpAndLeft d) x = PushUpAndLeft d x"
        unfolding x PushUpAndLeft_apply [OF f3(2)] using z by auto
    qed
  next
    case False
    from FindMin_attained [OF f False] obtain c0 r0 where
      o: "(mr, c0) \<in> occupied d" "(r0, mc) \<in> occupied d" by blast
    have "(0, c0 - mc) \<in> occupied (PushUpAndLeft d)" "(r0 - mr, 0) \<in> occupied (PushUpAndLeft d)"
      unfolding occupied_PushUpAndLeft [OF f] using o by force+
    then have "FindMin (PushUpAndLeft d) = (0, 0)" by (rule FindMin_zero)
    then show ?thesis by (rule PushUpAndLeft_fixed)
  qed
qed

subsection \<open>The placement loop as one pass over the attempts\<close>

text \<open>The (piece, orientation, anchor ball) triples that lines 538 to 549 run through, in order.\<close>

definition Attempts :: "solve_env \<Rightarrow> 12 word \<Rightarrow> (nat \<times> nat \<times> nat) list" where
  "Attempts env Flags =
     concat (map (\<lambda>PieceIdx.
       concat (map (\<lambda>OrientationIdx.
         map (\<lambda>PlacedBallIdx. (PieceIdx, OrientationIdx, PlacedBallIdx))
             [0..<NumBalls (SearchPieces env ! PieceIdx)])
         [0..<NumOrientations (SearchPieces env ! PieceIdx)]))
       (RemainingPieceIdxs Flags))"

text \<open>The outcome of the validity test of one attempt (lines 556 to 571).\<close>

definition CanPlace :: "solve_env \<Rightarrow> board \<Rightarrow> int \<times> int \<Rightarrow> nat \<times> nat \<times> nat \<Rightarrow> bool" where
  "CanPlace env B Target = (\<lambda>(PieceIdx, OrientationIdx, PlacedBallIdx).
     let Piece = SearchPieces env ! PieceIdx;
         Orientation = Orientations Piece ! OrientationIdx;
         Offset = (- fst (Orientation ! PlacedBallIdx), - snd (Orientation ! PlacedBallIdx))
     in fst (TestBalls env B Target Offset Orientation [0..<NumBalls Piece] 0))"

text \<open>The states that the valid attempts of a popped state produce, in order.\<close>

definition Children :: "solve_env \<Rightarrow> search_state \<Rightarrow> int \<times> int \<Rightarrow> search_state list" where
  "Children env SearchState Target =
     map (\<lambda>(PieceIdx, OrientationIdx, PlacedBallIdx).
            NewSearchState env SearchState Target PieceIdx OrientationIdx PlacedBallIdx)
         (filter (CanPlace env (Board SearchState) Target)
                 (Attempts env (RemainingPieceBitFlags SearchState)))"

lemma fold_concat_map:
  "fold f (concat (map g xs)) = fold (\<lambda>x. fold f (g x)) xs"
  by (induction xs) (simp_all add: fold_append)

lemma fold_nested3:
  "fold (\<lambda>i. fold (\<lambda>j. fold (h i j) (ks i)) (js i)) is
   = fold (\<lambda>(i, j, k). h i j k)
       (concat (map (\<lambda>i. concat (map (\<lambda>j. map (\<lambda>k. (i, j, k)) (ks i)) (js i))) is))"
  by (simp add: fold_concat_map fold_map comp_def)

lemma fold_nth: "fold (\<lambda>i. F (xs ! i)) [0..<length xs] = fold F xs"
proof -
  have "fold F (map (nth xs) [0..<length xs]) = fold (\<lambda>i. F (xs ! i)) [0..<length xs]"
    by (simp add: fold_map comp_def)
  then show ?thesis by (simp add: map_nth)
qed

lemma TestBalls_fst:
  "fst (TestBalls env B Target Offset Orientation idxs n)
   = fst (TestBalls env B Target Offset Orientation idxs 0)"
  by (induction idxs arbitrary: n) (auto simp: Let_def)

lemma TryPieces_fold:
  "TryPieces env s Target st =
     fold (\<lambda>(PieceIdx, OrientationIdx, PlacedBallIdx).
             TryPlacement env s Target (length (RemainingPieceIdxs (RemainingPieceBitFlags s)) = 1)
               PieceIdx OrientationIdx PlacedBallIdx)
          (Attempts env (RemainingPieceBitFlags s)) st"
proof -
  define L where "L = (length (RemainingPieceIdxs (RemainingPieceBitFlags s)) = 1)"
  define G where "G = (\<lambda>PieceIdx. fold (\<lambda>OrientationIdx.
                            fold (\<lambda>PlacedBallIdx.
                                    TryPlacement env s Target L PieceIdx
                                      OrientationIdx PlacedBallIdx)
                                 [0..<NumBalls (SearchPieces env ! PieceIdx)])
                         [0..<NumOrientations (SearchPieces env ! PieceIdx)])"
  have 1: "TryPieces env s Target st
           = fold (\<lambda>i. G (RemainingPieceIdxs (RemainingPieceBitFlags s) ! i))
                  [0..<length (RemainingPieceIdxs (RemainingPieceBitFlags s))] st"
    by (simp add: TryPieces_def Let_def G_def L_def)
  have 3: "fold G (RemainingPieceIdxs (RemainingPieceBitFlags s))
       = fold (\<lambda>(p, o', a). TryPlacement env s Target L p o' a)
              (Attempts env (RemainingPieceBitFlags s))"
    unfolding G_def Attempts_def by (rule fold_nested3)
  show ?thesis unfolding 1 fold_nth 3 L_def ..
qed

text \<open>One ball of an attempt passes the test of lines 562 to 566.\<close>

definition BallOk ::
  "solve_env \<Rightarrow> board \<Rightarrow> int \<times> int \<Rightarrow> int \<times> int \<Rightarrow> piece_orientation \<Rightarrow> nat \<Rightarrow> bool" where
  "BallOk env B Target Offset Orientation TestBallIdx =
     (let BallRowIdx = fst Target + fst Offset + fst (Orientation ! TestBallIdx);
          BallColIdx = snd Target + snd Offset + snd (Orientation ! TestBallIdx)
      in BallRowIdx \<ge> 0 \<and> BallRowIdx < NumRows env \<and> BallColIdx \<ge> 0 \<and> BallColIdx < NumCols env
         \<and> B (BallRowIdx, BallColIdx) = Empty)"

text \<open>
  The number of balls that the validity test of one attempt looks at: the balls before the
  first failing one, and that one.
\<close>

definition BallChecks :: "solve_env \<Rightarrow> board \<Rightarrow> int \<times> int \<Rightarrow> nat \<times> nat \<times> nat \<Rightarrow> nat" where
  "BallChecks env B Target = (\<lambda>(PieceIdx, OrientationIdx, PlacedBallIdx).
     let Piece = SearchPieces env ! PieceIdx;
         Orientation = Orientations Piece ! OrientationIdx;
         Offset = (- fst (Orientation ! PlacedBallIdx), - snd (Orientation ! PlacedBallIdx));
         Passed = takeWhile (BallOk env B Target Offset Orientation) [0..<NumBalls Piece]
     in if length Passed = NumBalls Piece then NumBalls Piece else length Passed + 1)"

lemma TestBalls_eq:
  "TestBalls env B Target Offset Orientation idxs n =
     (list_all (BallOk env B Target Offset Orientation) idxs,
      if WITH_STATS (Fast env)
      then n + of_nat (let k = length (takeWhile (BallOk env B Target Offset Orientation) idxs)
                       in if k = length idxs then k else k + 1)
      else n)"
proof (induction idxs arbitrary: n)
  case Nil
  then show ?case by simp
next
  case (Cons i idxs)
  show ?case
  proof (cases "BallOk env B Target Offset Orientation i")
    case True
    then have "TestBalls env B Target Offset Orientation (i # idxs) n
      = TestBalls env B Target Offset Orientation idxs (if WITH_STATS (Fast env) then n + 1 else n)"
      by (simp add: BallOk_def Let_def)
    then show ?thesis using True by (simp add: Cons Let_def)
  next
    case False
    then have "TestBalls env B Target Offset Orientation (i # idxs) n
      = (False, if WITH_STATS (Fast env) then n + 1 else n)"
      by (auto simp: BallOk_def Let_def)
    then show ?thesis using False by simp
  qed
qed

lemma CanPlace_eq:
  "CanPlace env B Target (p, o', a) =
     list_all (BallOk env B Target
                 (- fst (Orientations (SearchPieces env ! p) ! o' ! a),
                  - snd (Orientations (SearchPieces env ! p) ! o' ! a))
                 (Orientations (SearchPieces env ! p) ! o'))
              [0..<NumBalls (SearchPieces env ! p)]"
  by (simp add: CanPlace_def Let_def TestBalls_eq)

lemma TryPlacement_eq:
  "TryPlacement env s Target L p o' a st =
     st\<lparr>SearchStates := SearchStates st @
            (if CanPlace env (Board s) Target (p, o', a) \<and> \<not> L
             then [NewSearchState env s Target p o' a] else []),
        OutSolutions := OutSolutions st @
            (if CanPlace env (Board s) Target (p, o', a) \<and> L
             then [Board (NewSearchState env s Target p o' a)] else []),
        OutNumOrientationsTested :=
            (if WITH_STATS (Fast env) then OutNumOrientationsTested st + 1
             else OutNumOrientationsTested st),
        OutNumBallsTested :=
            (if WITH_STATS (Fast env)
             then OutNumBallsTested st + of_nat (BallChecks env (Board s) Target (p, o', a))
             else OutNumBallsTested st)\<rparr>"
  by (simp add: TryPlacement_def CanPlace_eq BallChecks_def Let_def TestBalls_eq)

lemma fold_TryPlacement:
  "fold (\<lambda>(p, o', a). TryPlacement env s Target L p o' a) xs st =
     st\<lparr>SearchStates := SearchStates st @
            (if L then []
             else map (\<lambda>(p, o', a). NewSearchState env s Target p o' a)
                      (filter (CanPlace env (Board s) Target) xs)),
        OutSolutions := OutSolutions st @
            (if L
             then map (\<lambda>(p, o', a). Board (NewSearchState env s Target p o' a))
                      (filter (CanPlace env (Board s) Target) xs)
             else []),
        OutNumOrientationsTested :=
            (if WITH_STATS (Fast env) then OutNumOrientationsTested st + of_nat (length xs)
             else OutNumOrientationsTested st),
        OutNumBallsTested :=
            (if WITH_STATS (Fast env)
             then OutNumBallsTested st + of_nat (sum_list (map (BallChecks env (Board s) Target) xs))
             else OutNumBallsTested st)\<rparr>"
proof (induction xs arbitrary: st)
  case Nil
  then show ?case by simp
next
  case (Cons x xs)
  obtain p o' a where x: "x = (p, o', a)" by (cases x)
  define F where "F = (\<lambda>(p, o', a). TryPlacement env s Target L p o' a)"
  define st1 where "st1 = TryPlacement env s Target L p o' a st"
  have "fold F (x # xs) st = fold F xs st1"
    by (simp add: x F_def st1_def)
  also have "\<dots> =
     st1\<lparr>SearchStates := SearchStates st1 @
            (if L then []
             else map (\<lambda>(p, o', a). NewSearchState env s Target p o' a)
                      (filter (CanPlace env (Board s) Target) xs)),
        OutSolutions := OutSolutions st1 @
            (if L
             then map (\<lambda>(p, o', a). Board (NewSearchState env s Target p o' a))
                      (filter (CanPlace env (Board s) Target) xs)
             else []),
        OutNumOrientationsTested :=
            (if WITH_STATS (Fast env) then OutNumOrientationsTested st1 + of_nat (length xs)
             else OutNumOrientationsTested st1),
        OutNumBallsTested :=
            (if WITH_STATS (Fast env)
             then OutNumBallsTested st1 + of_nat (sum_list (map (BallChecks env (Board s) Target) xs))
             else OutNumBallsTested st1)\<rparr>"
    unfolding F_def by (rule Cons)
  also have "\<dots> =
     st\<lparr>SearchStates := SearchStates st @
            (if L then []
             else map (\<lambda>(p, o', a). NewSearchState env s Target p o' a)
                      (filter (CanPlace env (Board s) Target) (x # xs))),
        OutSolutions := OutSolutions st @
            (if L
             then map (\<lambda>(p, o', a). Board (NewSearchState env s Target p o' a))
                      (filter (CanPlace env (Board s) Target) (x # xs))
             else []),
        OutNumOrientationsTested :=
            (if WITH_STATS (Fast env) then OutNumOrientationsTested st + of_nat (length (x # xs))
             else OutNumOrientationsTested st),
        OutNumBallsTested :=
            (if WITH_STATS (Fast env)
             then OutNumBallsTested st + of_nat (sum_list (map (BallChecks env (Board s) Target) (x # xs)))
             else OutNumBallsTested st)\<rparr>"
    unfolding st1_def TryPlacement_eq x by (simp add: add.assoc)
  finally show ?case unfolding F_def .
qed

lemma TryPieces_eq:
  "TryPieces env s Target st =
     (let L = (length (RemainingPieceIdxs (RemainingPieceBitFlags s)) = 1);
          xs = Attempts env (RemainingPieceBitFlags s)
      in st\<lparr>SearchStates := SearchStates st @ (if L then [] else Children env s Target),
            OutSolutions := OutSolutions st @ (if L then map Board (Children env s Target) else []),
            OutNumOrientationsTested :=
              (if WITH_STATS (Fast env) then OutNumOrientationsTested st + of_nat (length xs)
               else OutNumOrientationsTested st),
            OutNumBallsTested :=
              (if WITH_STATS (Fast env)
               then OutNumBallsTested st + of_nat (sum_list (map (BallChecks env (Board s) Target) xs))
               else OutNumBallsTested st)\<rparr>)"
  unfolding TryPieces_fold fold_TryPlacement
  by (simp add: Children_def Let_def comp_def case_prod_unfold)

declare FindEmptyCell.simps [simp del]

subsection \<open>The remaining-piece flags\<close>

lemma flag_test: "(drop_bit n (w :: 12 word) AND 1 \<noteq> 0) = bit w n"
  by (simp add: and_one_eq bit_iff_odd_drop_bit odd_iff_mod_2_eq_one)

lemma RemainingPieceIdxs_eq: "RemainingPieceIdxs Flags = filter (bit Flags) [0..<NUM_PIECES]"
  by (simp add: RemainingPieceIdxs_def flag_test)

lemma set_RemainingPieceIdxs: "set (RemainingPieceIdxs Flags) = {p. p < NUM_PIECES \<and> bit Flags p}"
  by (auto simp: RemainingPieceIdxs_eq)

lemma distinct_RemainingPieceIdxs: "distinct (RemainingPieceIdxs Flags)"
  by (simp add: RemainingPieceIdxs_eq)

lemma bit_clear_flag:
  "bit ((Flags :: 12 word) AND NOT (push_bit p 1)) q \<longleftrightarrow> bit Flags q \<and> q \<noteq> p"
  by (auto simp: bit_simps dest: bit_imp_le_length)

lemma RemainingPieceIdxs_clear:
  "RemainingPieceIdxs (Flags AND NOT (push_bit p 1)) = removeAll p (RemainingPieceIdxs Flags)"
proof -
  have "filter (bit (Flags AND NOT (push_bit p 1))) [0..<NUM_PIECES]
        = filter (\<lambda>q. p \<noteq> q) (filter (bit Flags) [0..<NUM_PIECES])"
    unfolding bit_clear_flag by (auto intro: filter_cong)
  then show ?thesis
    unfolding RemainingPieceIdxs_eq removeAll_filter_not_eq .
qed

lemma length_RemainingPieceIdxs_clear:
  assumes "p \<in> set (RemainingPieceIdxs Flags)"
  shows "length (RemainingPieceIdxs (Flags AND NOT (push_bit p 1)))
         < length (RemainingPieceIdxs Flags)"
proof -
  have "length (removeAll p (RemainingPieceIdxs Flags)) < length (RemainingPieceIdxs Flags)"
    using assms by (simp add: removeAll_filter_not_eq length_filter_less)
  then show ?thesis by (simp only: RemainingPieceIdxs_clear)
qed

lemma Attempts_piece:
  "(p, o', a) \<in> set (Attempts env Flags) \<longleftrightarrow>
     p \<in> set (RemainingPieceIdxs Flags) \<and> o' < NumOrientations (SearchPieces env ! p)
     \<and> a < NumBalls (SearchPieces env ! p)"
  by (force simp: Attempts_def)

lemma Children_flags:
  assumes "c \<in> set (Children env s Target)"
  shows "\<exists>p \<in> set (RemainingPieceIdxs (RemainingPieceBitFlags s)).
           RemainingPieceBitFlags c = RemainingPieceBitFlags s AND NOT (push_bit p 1)"
  using assms by (auto simp: Children_def NewSearchState_def Let_def Attempts_piece)

lemma Children_fewer:
  assumes "c \<in> set (Children env s Target)"
  shows "length (RemainingPieceIdxs (RemainingPieceBitFlags c))
         < length (RemainingPieceIdxs (RemainingPieceBitFlags s))"
  using Children_flags [OF assms] length_RemainingPieceIdxs_clear by auto

text \<open>The target of a popped state: lines 511 to 520.\<close>

definition TargetOf :: "solve_env \<Rightarrow> search_state \<Rightarrow> int \<times> int" where
  "TargetOf env SearchState =
     (let EmptyCellIdx' = FindEmptyCell (Board SearchState) (InputBoardEmptyCells env)
                            (EmptyCellIdx SearchState)
      in if EmptyCellIdx' < length (InputBoardEmptyCells env)
         then InputBoardEmptyCells env ! EmptyCellIdx' else Indeterminate env)"

definition ScanFound :: "solve_env \<Rightarrow> search_state \<Rightarrow> bool" where
  "ScanFound env SearchState =
     (FindEmptyCell (Board SearchState) (InputBoardEmptyCells env) (EmptyCellIdx SearchState)
      < length (InputBoardEmptyCells env))"

lemma SolveStep_eq:
  "SolveStep env st =
     (if \<not> NDEBUG (Fast env) \<and> \<not> ScanFound env (last (SearchStates st)) then Inl AssertionFailed
      else Inr (TryPieces env (last (SearchStates st)) (TargetOf env (last (SearchStates st)))
                  (st\<lparr>OutNumBoardStatesTested :=
                        (if WITH_STATS (Fast env) then OutNumBoardStatesTested st + 1
                         else OutNumBoardStatesTested st),
                      SearchStates := butlast (SearchStates st)\<rparr>)))"
  by (simp add: SolveStep_def TargetOf_def ScanFound_def Let_def)

lemma TryPieces_SearchStates:
  "SearchStates (TryPieces env s Target st) =
     SearchStates st @ (if length (RemainingPieceIdxs (RemainingPieceBitFlags s)) = 1 then []
                        else Children env s Target)"
  by (simp add: TryPieces_eq Let_def)

lemma TryPieces_OutSolutions:
  "OutSolutions (TryPieces env s Target st) =
     OutSolutions st @ (if length (RemainingPieceIdxs (RemainingPieceBitFlags s)) = 1
                        then map Board (Children env s Target) else [])"
  by (simp add: TryPieces_eq Let_def)

lemma SolveStep_Inr:
  assumes "SolveStep env st = Inr st'"
  shows "st' = TryPieces env (last (SearchStates st)) (TargetOf env (last (SearchStates st)))
                  (st\<lparr>OutNumBoardStatesTested :=
                        (if WITH_STATS (Fast env) then OutNumBoardStatesTested st + 1
                         else OutNumBoardStatesTested st),
                      SearchStates := butlast (SearchStates st)\<rparr>)"
    and "NDEBUG (Fast env) \<or> ScanFound env (last (SearchStates st))"
proof -
  have c: "\<not> (\<not> NDEBUG (Fast env) \<and> \<not> ScanFound env (last (SearchStates st)))"
  proof
    assume "\<not> NDEBUG (Fast env) \<and> \<not> ScanFound env (last (SearchStates st))"
    then have "SolveStep env st = Inl AssertionFailed" by (simp add: SolveStep_eq)
    then show False using assms by simp
  qed
  then show "NDEBUG (Fast env) \<or> ScanFound env (last (SearchStates st))" by blast
  have "SolveStep env st = Inr (TryPieces env (last (SearchStates st)) (TargetOf env (last (SearchStates st)))
                  (st\<lparr>OutNumBoardStatesTested :=
                        (if WITH_STATS (Fast env) then OutNumBoardStatesTested st + 1
                         else OutNumBoardStatesTested st),
                      SearchStates := butlast (SearchStates st)\<rparr>))"
    using c by (simp add: SolveStep_eq)
  then show "st' = TryPieces env (last (SearchStates st)) (TargetOf env (last (SearchStates st)))
                  (st\<lparr>OutNumBoardStatesTested :=
                        (if WITH_STATS (Fast env) then OutNumBoardStatesTested st + 1
                         else OutNumBoardStatesTested st),
                      SearchStates := butlast (SearchStates st)\<rparr>)"
    using assms by simp
qed

lemma SolveStep_stack:
  assumes "SolveStep env st = Inr st'"
  shows "SearchStates st' = butlast (SearchStates st) @
           (if length (RemainingPieceIdxs (RemainingPieceBitFlags (last (SearchStates st)))) = 1
            then [] else Children env (last (SearchStates st)) (TargetOf env (last (SearchStates st))))"
  unfolding SolveStep_Inr(1) [OF assms] TryPieces_SearchStates by simp

definition StackMeasure :: "solve_state \<Rightarrow> nat multiset" where
  "StackMeasure st =
     mset (map (\<lambda>s. length (RemainingPieceIdxs (RemainingPieceBitFlags s))) (SearchStates st))"

lemma SolveStep_decreases:
  assumes "SearchStates st \<noteq> []" "SolveStep env st = Inr st'"
  shows "(StackMeasure st', StackMeasure st) \<in> mult {(a, b). a < b}"
proof -
  define top where "top = last (SearchStates st)"
  define cs where "cs = (if length (RemainingPieceIdxs (RemainingPieceBitFlags top)) = 1
            then [] else Children env top (TargetOf env top))"
  define m where "m = (\<lambda>s :: search_state. length (RemainingPieceIdxs (RemainingPieceBitFlags s)))"
  have st': "SearchStates st' = butlast (SearchStates st) @ cs"
    unfolding cs_def top_def by (rule SolveStep_stack [OF assms(2)])
  have st: "SearchStates st = butlast (SearchStates st) @ [top]"
    using assms(1) by (simp add: top_def)
  have lt: "\<forall>k\<in>#mset (map m cs). \<exists>j\<in>#{#m top#}. (k, j) \<in> {(a, b). a < b}"
    using Children_fewer by (auto simp: cs_def m_def)
  have "(mset (map m (butlast (SearchStates st))) + mset (map m cs),
         mset (map m (butlast (SearchStates st))) + {#m top#}) \<in> mult {(a, b). a < b}"
    by (rule one_step_implies_mult [OF _ lt]) simp
  moreover have "StackMeasure st' = mset (map m (butlast (SearchStates st))) + mset (map m cs)"
    by (simp add: StackMeasure_def st' m_def)
  moreover have "StackMeasure st = mset (map m (butlast (SearchStates st))) + {#m top#}"
  proof -
    have "StackMeasure st = mset (map m (butlast (SearchStates st) @ [top]))"
      using assms(1) by (simp add: StackMeasure_def m_def top_def)
    then show ?thesis by simp
  qed
  ultimately show ?thesis by simp
qed

text \<open>Lines 499 to 599: the \<^verbatim>\<open>while\<close> loop.\<close>

function SolveLoop :: "solve_env \<Rightarrow> solve_state \<Rightarrow> error + solve_state" where
  "SolveLoop env st =
     (if SearchStates st = [] then Inr st
      else case SolveStep env st of Inl e \<Rightarrow> Inl e | Inr st' \<Rightarrow> SolveLoop env st')"
  by pat_completeness auto
termination
proof (relation "inv_image (mult {(a, b). a < b}) (\<lambda>(env, st). StackMeasure st)")
  show "wf (inv_image (mult {(a :: nat, b). a < b}) (\<lambda>(env, st). StackMeasure st))"
    by (intro wf_inv_image wf_mult wf_less)
next
  fix env st x2
  assume "SearchStates st \<noteq> []" "SolveStep env st = Inr x2"
  then show "((env, x2), (env, st)) \<in> inv_image (mult {(a, b). a < b}) (\<lambda>(env, st). StackMeasure st)"
    by (simp add: SolveStep_decreases)
qed

declare SolveLoop.simps [simp del]

text \<open>
  \<^verbatim>\<open>solver::Solve\<close>. The last three arguments are the values that the caller's counters hold
  on entry; \<^verbatim>\<open>OutSolutions\<close> is cleared (line 492), so its value on entry plays no part.
  The first test is the capacity of \<^verbatim>\<open>InputBoardEmptyCells\<close> (lines 436 to 451).
\<close>

definition Solve ::
  "bool \<Rightarrow> int \<times> int \<Rightarrow> search_piece list \<Rightarrow> board \<Rightarrow> int \<Rightarrow> int \<Rightarrow> u64 \<Rightarrow> u64 \<Rightarrow> u64
   \<Rightarrow> error + solve_state" where
  "Solve fast Indet Pieces InputBoard NumRows' NumCols' N1 N2 N3 =
     (if NUM_VALID_CELLS < length (EmptyCellsOf InputBoard) then Inl ArrayOverrun
      else
       let env = \<lparr>Fast = fast, Indeterminate = Indet, SearchPieces = Pieces,
                   NumRows = NumRows', NumCols = NumCols',
                   InputBoardEmptyCells = EmptyCellsOf InputBoard\<rparr>;
            InitialSearchState =
              \<lparr>Board = InputBoard,
               RemainingPieceBitFlags = InitialFlags InputBoard NumRows' NumCols',
               EmptyCellIdx = 0\<rparr>;
            st0 = \<lparr>SearchStates = [InitialSearchState], OutSolutions = [],
                   OutNumBoardStatesTested = (if WITH_STATS fast then 0 else N1),
                   OutNumOrientationsTested = (if WITH_STATS fast then 0 else N2),
                   OutNumBallsTested = (if WITH_STATS fast then 0 else N3)\<rparr>
        in SolveLoop env st0)"

subsection \<open>The eight variants and their ball counts\<close>

lemma ExpandPiece_eq:
  "ExpandPiece Piece =
     [Piece,
      Rotate Piece zero_definition,
      Rotate (Rotate Piece zero_definition) zero_definition,
      Rotate (Rotate (Rotate Piece zero_definition) zero_definition) zero_definition,
      Flip Piece zero_definition,
      Rotate (Flip Piece zero_definition) zero_definition,
      Rotate (Rotate (Flip Piece zero_definition) zero_definition) zero_definition,
      Rotate (Rotate (Rotate (Flip Piece zero_definition) zero_definition) zero_definition)
        zero_definition]"
  by (simp add: ExpandPiece_def NUM_ROTATIONS_def Let_def upt_rec replicate_Suc numeral_eq_Suc)

lemma occupied_Rotate: "occupied (Rotate d z) = (\<lambda>(r, c). (c, 3 - r)) ` occupied d"
proof (rule set_eqI)
  fix x :: "int \<times> int"
  obtain r c where x: "x = (r, c)" by (cases x)
  show "x \<in> occupied (Rotate d z) \<longleftrightarrow> x \<in> (\<lambda>(r, c). (c, 3 - r)) ` occupied d"
  proof
    assume "x \<in> occupied (Rotate d z)"
    then have "(3 - c, r) \<in> occupied d"
      by (auto simp: x occupied_iff Rotate_apply)
    then show "x \<in> (\<lambda>(r, c). (c, 3 - r)) ` occupied d"
      unfolding x by (rule rev_image_eqI) simp
  next
    assume "x \<in> (\<lambda>(r, c). (c, 3 - r)) ` occupied d"
    then show "x \<in> occupied (Rotate d z)"
      by (auto simp: x occupied_iff Rotate_apply)
  qed
qed

lemma occupied_Flip: "occupied (Flip d z) = (\<lambda>(r, c). (3 - r, c)) ` occupied d"
proof (rule set_eqI)
  fix x :: "int \<times> int"
  obtain r c where x: "x = (r, c)" by (cases x)
  show "x \<in> occupied (Flip d z) \<longleftrightarrow> x \<in> (\<lambda>(r, c). (3 - r, c)) ` occupied d"
  proof
    assume "x \<in> occupied (Flip d z)"
    then have "(3 - r, c) \<in> occupied d"
      by (auto simp: x occupied_iff Flip_apply)
    then show "x \<in> (\<lambda>(r, c). (3 - r, c)) ` occupied d"
      unfolding x by (rule rev_image_eqI) simp
  next
    assume "x \<in> (\<lambda>(r, c). (3 - r, c)) ` occupied d"
    then show "x \<in> occupied (Flip d z)"
      by (auto simp: x occupied_iff Flip_apply)
  qed
qed

lemma card_occupied_Rotate: "card (occupied (Rotate d z)) = card (occupied d)"
  unfolding occupied_Rotate by (rule card_image) (auto simp: inj_on_def)

lemma card_occupied_Flip: "card (occupied (Flip d z)) = card (occupied d)"
  unfolding occupied_Flip by (rule card_image) (auto simp: inj_on_def)

lemma card_occupied_PushUpAndLeft: "card (occupied (PushUpAndLeft d)) = card (occupied d)"
proof -
  obtain mr mc where f: "FindMin d = (mr, mc)" by (cases "FindMin d")
  show ?thesis
    unfolding occupied_PushUpAndLeft [OF f] by (rule card_image) (auto simp: inj_on_def)
qed

lemma card_occupied_variants:
  assumes "v \<in> set (map PushUpAndLeft (ExpandPiece Piece))"
  shows "card (occupied v) = card (occupied Piece)"
  using assms
  by (auto simp: ExpandPiece_eq card_occupied_PushUpAndLeft card_occupied_Rotate card_occupied_Flip)

subsection \<open>De-duplication\<close>

text \<open>Keeping the first of every group of list elements with the same key.\<close>

definition KeepFirst :: "('a \<Rightarrow> 'k) \<Rightarrow> 'a list \<Rightarrow> 'a list \<Rightarrow> 'a list" where
  "KeepFirst key xs acc =
     fold (\<lambda>x acc. if key x \<in> key ` set acc then acc else acc @ [x]) xs acc"

lemma KeepFirst_snoc:
  "KeepFirst key (xs @ [x]) acc =
     (if key x \<in> key ` set (KeepFirst key xs acc) then KeepFirst key xs acc
      else KeepFirst key xs acc @ [x])"
  by (simp add: KeepFirst_def)

lemma set_KeepFirst_subset: "set (KeepFirst key xs []) \<subseteq> set xs"
  by (induction xs rule: rev_induct) (auto simp: KeepFirst_snoc, simp add: KeepFirst_def)

lemma keys_KeepFirst: "key ` set (KeepFirst key xs []) = key ` set xs"
  by (induction xs rule: rev_induct) (auto simp: KeepFirst_snoc, simp add: KeepFirst_def)

lemma KeepFirst_Nil: "KeepFirst key [] acc = acc"
  by (simp add: KeepFirst_def)

lemma KeepFirst_nonempty: "xs \<noteq> [] \<Longrightarrow> KeepFirst key xs [] \<noteq> []"
  using keys_KeepFirst [of key xs] by auto

lemma map_KeepFirst:
  assumes "\<And>x y. x \<in> set xs \<Longrightarrow> y \<in> set xs \<Longrightarrow> (key x = key y) = (h x = h y)"
  shows "map h (KeepFirst key xs []) = rev (remdups (rev (map h xs)))"
  using assms
proof (induction xs rule: rev_induct)
  case Nil
  then show ?case by (simp add: KeepFirst_Nil)
next
  case (snoc x xs)
  have IH: "map h (KeepFirst key xs []) = rev (remdups (rev (map h xs)))"
    by (rule snoc.IH) (use snoc.prems in auto)
  have "key x \<in> key ` set (KeepFirst key xs []) \<longleftrightarrow> h x \<in> h ` set xs"
  proof -
    have "key x \<in> key ` set xs \<longleftrightarrow> h x \<in> h ` set xs"
      using snoc.prems by (auto simp: image_iff)
    then show ?thesis by (simp add: keys_KeepFirst)
  qed
  then show ?case by (simp add: KeepFirst_snoc IH)
qed

text \<open>The loop of lines 373 to 392.\<close>

lemma UniquePiece_fold:
  "fold (\<lambda>OrientationIdx IntermediatePiece.
             let Orientation = PieceOrientation ! OrientationIdx;
                 IsOrientationUnique =
                   (\<not> list_ex (\<lambda>OtherOrientationIdx.
                          Packed Orientation =
                          Packed (UniqueOrientations IntermediatePiece ! OtherOrientationIdx))
                        [0..<NumUniqueOrientations IntermediatePiece])
             in if IsOrientationUnique
                then IntermediatePiece
                       \<lparr>UniqueOrientations := UniqueOrientations IntermediatePiece @ [Orientation],
                        NumUniqueOrientations := NumUniqueOrientations IntermediatePiece + 1\<rparr>
                else IntermediatePiece) idxs \<lparr>UniqueOrientations = acc, NumUniqueOrientations = length acc\<rparr>
   = \<lparr>UniqueOrientations = KeepFirst Packed (map (nth PieceOrientation) idxs) acc,
      NumUniqueOrientations = length (KeepFirst Packed (map (nth PieceOrientation) idxs) acc)\<rparr>"
proof (induction idxs arbitrary: acc)
  case Nil
  then show ?case by (simp add: KeepFirst_def)
next
  case (Cons i idxs)
  have ex: "list_ex (\<lambda>j. Packed (PieceOrientation ! i) = Packed (acc ! j)) [0..<length acc]
        \<longleftrightarrow> Packed (PieceOrientation ! i) \<in> Packed ` set acc"
    unfolding list_ex_iff by (force simp: in_set_conv_nth)
  show ?case
  proof (cases "Packed (PieceOrientation ! i) \<in> Packed ` set acc")
    case True
    then show ?thesis
      using Cons [of acc] by (simp add: Let_def ex KeepFirst_def)
  next
    case False
    then show ?thesis
      using Cons [of "acc @ [PieceOrientation ! i]"] by (simp add: Let_def ex KeepFirst_def)
  qed
qed

lemma UniquePiece_eq:
  assumes "length vs = 2 * NUM_ROTATIONS"
  shows "UniquePiece vs = \<lparr>UniqueOrientations = KeepFirst Packed vs [],
                           NumUniqueOrientations = length (KeepFirst Packed vs [])\<rparr>"
proof -
  have "map (nth vs) [0..<2 * NUM_ROTATIONS] = vs"
    using assms map_nth [of vs] by simp
  then show ?thesis
    unfolding UniquePiece_def using UniquePiece_fold [of vs "[0..<2 * NUM_ROTATIONS]" "[]"]
    by simp
qed

subsection \<open>Conversion to ball lists\<close>

text \<open>The occupied cells of a piece definition in row-major order.\<close>

definition BallList :: "piece_definition \<Rightarrow> piece_orientation" where
  "BallList d = filter (\<lambda>x. d x \<noteq> 0) piece_cells"

lemma set_BallList: "set (BallList d) = occupied d"
  by (simp add: BallList_def occupied_def)

lemma distinct_BallList: "distinct (BallList d)"
  by (simp add: BallList_def distinct_piece_cells)

lemma length_BallList: "length (BallList d) = card (occupied d)"
  using distinct_card [OF distinct_BallList, of d] by (simp add: set_BallList)

lemma ConvertOrientation_fold:
  assumes F: "\<And>x bs n. F x (bs, n) = (if d x \<noteq> (0 :: u8) then (bs @ [x], n + 1) else (bs, n :: nat))"
  shows "fold F xs (bs, n)
   = (bs @ filter (\<lambda>x. d x \<noteq> 0) xs, n + length (filter (\<lambda>x. d x \<noteq> 0) xs))"
  by (induction xs arbitrary: bs n) (simp_all add: F)

lemma ConvertOrientation_eq:
  "ConvertOrientation d n = (BallList d, n + length (BallList d))"
proof -
  define F where "F = (\<lambda>(RowIdx :: int, ColIdx :: int) (Balls, NumBalls :: nat).
             if d (RowIdx, ColIdx) \<noteq> 0
             then (Balls @ [(RowIdx, ColIdx)], NumBalls + 1)
             else (Balls, NumBalls))"
  have F: "\<And>x bs n. F x (bs, n) = (if d x \<noteq> 0 then (bs @ [x], n + 1) else (bs, n))"
    by (simp add: F_def case_prod_unfold)
  have "ConvertOrientation d n = fold F piece_cells ([], n)"
    by (simp add: ConvertOrientation_def F_def)
  then show ?thesis by (simp add: ConvertOrientation_fold [OF F] BallList_def)
qed

lemma ConvertPiece_fold:
  assumes F: "\<And>i sp. F i sp = sp\<lparr>Orientations := Orientations sp @ [BallList (Definition (U ! i))],
                                    NumBalls := length (BallList (Definition (U ! i)))\<rparr>"
  shows "fold F idxs sp
   = sp\<lparr>Orientations := Orientations sp @ map (\<lambda>i. BallList (Definition (U ! i))) idxs,
        NumBalls := (if idxs = [] then NumBalls sp
                     else length (BallList (Definition (U ! last idxs))))\<rparr>"
  by (induction idxs arbitrary: sp) (simp_all add: F)

lemma ConvertPiece_eq:
  assumes "NumUniqueOrientations ip = length (UniqueOrientations ip)"
  shows "ConvertPiece ip =
     \<lparr>Orientations = map (\<lambda>e. BallList (Definition e)) (UniqueOrientations ip),
      NumOrientations = length (UniqueOrientations ip),
      NumBalls = (if UniqueOrientations ip = [] then 0
                  else length (BallList (Definition (last (UniqueOrientations ip)))))\<rparr>"
proof -
  have m: "map (\<lambda>i. BallList (Definition (UniqueOrientations ip ! i))) [0..<length (UniqueOrientations ip)]
        = map (\<lambda>e. BallList (Definition e)) (UniqueOrientations ip)"
    by (rule nth_equalityI) simp_all
  have l: "UniqueOrientations ip \<noteq> [] \<Longrightarrow>
      UniqueOrientations ip ! last [0..<length (UniqueOrientations ip)] = last (UniqueOrientations ip)"
    by (simp add: last_conv_nth)
  define F where "F = (\<lambda>OrientationIdx (SearchPiece :: search_piece).
             case ConvertOrientation
                    (Definition (UniqueOrientations ip ! OrientationIdx)) 0
             of (Balls, NumBalls') \<Rightarrow>
               SearchPiece\<lparr>Orientations := Orientations SearchPiece @ [Balls],
                           NumBalls := NumBalls'\<rparr>)"
  have F: "\<And>i sp. F i sp = sp\<lparr>Orientations := Orientations sp @ [BallList (Definition (UniqueOrientations ip ! i))],
                                    NumBalls := length (BallList (Definition (UniqueOrientations ip ! i)))\<rparr>"
    by (simp add: F_def ConvertOrientation_eq)
  have "ConvertPiece ip = fold F [0..<length (UniqueOrientations ip)]
          \<lparr>Orientations = [], NumOrientations = length (UniqueOrientations ip), NumBalls = 0\<rparr>"
    by (simp add: ConvertPiece_def F_def assms)
  then show ?thesis
    unfolding ConvertPiece_fold [OF F] m using l by auto
qed

subsection \<open>The table entry of one piece\<close>

definition WithPacked :: "piece_definition \<Rightarrow> expanded_representation" where
  "WithPacked D = \<lparr>Definition = D, Packed = ComputePackedRepresentation D\<rparr>"

definition NormalisedVariants :: "piece_definition \<Rightarrow> piece_definition list" where
  "NormalisedVariants Piece = map PushUpAndLeft (ExpandPiece Piece)"

lemma length_NormalisedVariants: "length (NormalisedVariants Piece) = 8"
  by (simp add: NormalisedVariants_def ExpandPiece_eq)

lemma Initialize_nth:
  assumes "p < NUM_PIECES"
  shows "Initialize Pieces ! p =
     ConvertPiece (UniquePiece (map WithPacked (NormalisedVariants (Pieces ! p))))"
proof -
  have W: "(\<lambda>D. \<lparr>Definition = D, Packed = ComputePackedRepresentation D\<rparr>) = WithPacked"
    by (simp add: fun_eq_iff WithPacked_def)
  show ?thesis
    using assms by (simp add: Initialize_def Let_def NormalisedVariants_def W)
qed

lemma length_Initialize: "length (Initialize Pieces) = NUM_PIECES"
  by (simp add: Initialize_def Let_def)

lemma Initialize_entry:
  fixes Pieces :: "piece_definition list"
  assumes "p < NUM_PIECES"
  defines "K \<equiv> KeepFirst Packed (map WithPacked (NormalisedVariants (Pieces ! p))) []"
  shows "Initialize Pieces ! p =
     \<lparr>Orientations = map (\<lambda>e. BallList (Definition e)) K,
      NumOrientations = length K,
      NumBalls = length (BallList (Definition (last K)))\<rparr>"
    and "K \<noteq> []"
    and "set K \<subseteq> WithPacked ` set (NormalisedVariants (Pieces ! p))"
proof -
  have len: "length (map WithPacked (NormalisedVariants (Pieces ! p))) = 2 * NUM_ROTATIONS"
    by (simp add: length_NormalisedVariants NUM_ROTATIONS_def)
  have U: "UniquePiece (map WithPacked (NormalisedVariants (Pieces ! p)))
        = \<lparr>UniqueOrientations = K, NumUniqueOrientations = length K\<rparr>"
    unfolding K_def by (rule UniquePiece_eq [OF len])
  have "map WithPacked (NormalisedVariants (Pieces ! p)) \<noteq> []"
    using len by (auto simp: NUM_ROTATIONS_def)
  then show ne: "K \<noteq> []" unfolding K_def by (rule KeepFirst_nonempty)
  show "Initialize Pieces ! p =
     \<lparr>Orientations = map (\<lambda>e. BallList (Definition e)) K,
      NumOrientations = length K,
      NumBalls = length (BallList (Definition (last K)))\<rparr>"
    unfolding Initialize_nth [OF assms(1)] U using ne by (simp add: ConvertPiece_eq)
  show "set K \<subseteq> WithPacked ` set (NormalisedVariants (Pieces ! p))"
    unfolding K_def using set_KeepFirst_subset [of Packed "map WithPacked (NormalisedVariants (Pieces ! p))"]
    by simp
qed

lemma Initialize_NumBalls:
  assumes "p < NUM_PIECES"
  shows "NumBalls (Initialize Pieces ! p) = card (occupied (Pieces ! p))"
    and "list_all (\<lambda>Balls. length Balls = card (occupied (Pieces ! p)))
           (Orientations (Initialize Pieces ! p))"
    and "NumOrientations (Initialize Pieces ! p) = length (Orientations (Initialize Pieces ! p))"
    and "0 < NumOrientations (Initialize Pieces ! p)"
    and "list_all distinct (Orientations (Initialize Pieces ! p))"
proof -
  define K where "K = KeepFirst Packed (map WithPacked (NormalisedVariants (Pieces ! p))) []"
  note E = Initialize_entry [OF assms, of Pieces, folded K_def]
  have c: "\<And>e. e \<in> set K \<Longrightarrow> length (BallList (Definition e)) = card (occupied (Pieces ! p))"
  proof -
    fix e assume "e \<in> set K"
    then obtain v where v: "v \<in> set (NormalisedVariants (Pieces ! p))" "e = WithPacked v"
      using E(3) by auto
    then have "card (occupied v) = card (occupied (Pieces ! p))"
      using card_occupied_variants [of v "Pieces ! p"] by (simp add: NormalisedVariants_def)
    then show "length (BallList (Definition e)) = card (occupied (Pieces ! p))"
      by (simp add: v(2) WithPacked_def length_BallList)
  qed
  have "last K \<in> set K" using E(2) by simp
  then show "NumBalls (Initialize Pieces ! p) = card (occupied (Pieces ! p))"
    using c by (simp add: E(1))
  show "list_all (\<lambda>Balls. length Balls = card (occupied (Pieces ! p)))
           (Orientations (Initialize Pieces ! p))"
    using c by (simp add: E(1) list_all_iff)
  show "NumOrientations (Initialize Pieces ! p) = length (Orientations (Initialize Pieces ! p))"
    by (simp add: E(1))
  show "0 < NumOrientations (Initialize Pieces ! p)"
    using E(2) by (simp add: E(1))
  show "list_all distinct (Orientations (Initialize Pieces ! p))"
    by (simp add: E(1) list_all_iff distinct_BallList)
qed

subsection \<open>The packed value determines the cells\<close>

lemma Packed_fold_bit:
  assumes F: "\<And>x P. F x P = push_bit 1 P OR (ucast (d x :: u8) :: u32)"
  shows "(\<forall>x \<in> set xs. d x = 0 \<or> d x = 1) \<Longrightarrow> length xs \<le> 32 \<Longrightarrow>
         bit (fold F xs 0) k \<longleftrightarrow> k < length xs \<and> d (xs ! (length xs - 1 - k)) = 1"
proof (induction xs arbitrary: k rule: rev_induct)
  case Nil
  then show ?case by simp
next
  case (snoc x xs)
  define P where "P = fold F xs 0"
  have IH: "\<And>k. bit P k \<longleftrightarrow> k < length xs \<and> d (xs ! (length xs - 1 - k)) = 1"
    unfolding P_def using snoc by simp
  have x01: "d x = 0 \<or> d x = 1" using snoc.prems by simp
  have len: "length xs < 32" using snoc.prems by simp
  have b: "bit (ucast (d x) :: u32) k \<longleftrightarrow> k = 0 \<and> d x = 1"
    using x01 by (auto simp: bit_simps)
  have "fold F (xs @ [x]) 0 = F x P" by (simp add: P_def)
  then have step: "fold F (xs @ [x]) 0 = push_bit 1 P OR ucast (d x)" by (simp only: F)
  show ?case
  proof (cases k)
    case 0
    then show ?thesis unfolding step using x01 by (auto simp: bit_0 even_or_iff)
  next
    case (Suc j)
    have "bit (2 * P) (Suc j) \<longleftrightarrow> Suc j < 32 \<and> bit P j"
      by (simp add: bit_double_Suc_iff possible_bit_word)
    then have "bit (push_bit 1 P) (Suc j) \<longleftrightarrow> bit P j"
      using len IH [of j] by (auto simp: mult.commute)
    then show ?thesis
      unfolding step using Suc b by (auto simp: bit_or_iff IH nth_append)
  qed
qed

lemma Packed_eq_iff:
  assumes "\<forall>x \<in> set piece_cells. d1 x = 0 \<or> d1 x = 1" "\<forall>x \<in> set piece_cells. d2 x = 0 \<or> d2 x = 1"
  shows "ComputePackedRepresentation d1 = ComputePackedRepresentation d2
         \<longleftrightarrow> (\<forall>x \<in> set piece_cells. d1 x = d2 x)"
proof
  define F1 where "F1 = (\<lambda>(RowIdx :: int, ColIdx :: int) (Packed :: u32).
      push_bit 1 Packed OR ucast (d1 (RowIdx, ColIdx)))"
  define F2 where "F2 = (\<lambda>(RowIdx :: int, ColIdx :: int) (Packed :: u32).
      push_bit 1 Packed OR ucast (d2 (RowIdx, ColIdx)))"
  have F1: "\<And>x P. F1 x P = push_bit 1 P OR (ucast (d1 x) :: u32)"
    and F2: "\<And>x P. F2 x P = push_bit 1 P OR (ucast (d2 x) :: u32)"
    by (simp_all add: F1_def F2_def case_prod_unfold)
  have P1: "ComputePackedRepresentation d1 = fold F1 piece_cells 0"
    and P2: "ComputePackedRepresentation d2 = fold F2 piece_cells 0"
    by (simp_all add: ComputePackedRepresentation_def F1_def F2_def)
  have len: "length piece_cells = 16" by (simp add: piece_cells_def MAX_PIECE_SIZE_def)
  {
    assume eq: "ComputePackedRepresentation d1 = ComputePackedRepresentation d2"
    show "\<forall>x \<in> set piece_cells. d1 x = d2 x"
    proof
      fix x assume "x \<in> set piece_cells"
      then obtain i where i: "i < 16" "x = piece_cells ! i"
        using len by (auto simp: in_set_conv_nth)
      have lt: "15 - i < length piece_cells" "length piece_cells - 1 - (15 - i) = i"
        using i len by simp_all
      have "bit (fold F1 piece_cells 0) (15 - i) \<longleftrightarrow> d1 x = 1"
        using Packed_fold_bit [where F = F1 and d = d1 and xs = piece_cells and k = "15 - i", OF F1] assms(1) i lt len by simp
      moreover have "bit (fold F2 piece_cells 0) (15 - i) \<longleftrightarrow> d2 x = 1"
        using Packed_fold_bit [where F = F2 and d = d2 and xs = piece_cells and k = "15 - i", OF F2] assms(2) i lt len by simp
      ultimately have "d1 x = 1 \<longleftrightarrow> d2 x = 1" using eq by (simp add: P1 P2)
      then show "d1 x = d2 x" using assms \<open>x \<in> set piece_cells\<close> by metis
    qed
  }
  {
    assume "\<forall>x \<in> set piece_cells. d1 x = d2 x"
    then have "fold F1 piece_cells 0 = fold F2 piece_cells 0"
      by (intro fold_cong) (auto simp: F1 F2)
    then show "ComputePackedRepresentation d1 = ComputePackedRepresentation d2"
      by (simp add: P1 P2)
  }
qed

lemma BallList_eq_iff:
  assumes "\<forall>x \<in> set piece_cells. d1 x = 0 \<or> d1 x = 1" "\<forall>x \<in> set piece_cells. d2 x = 0 \<or> d2 x = 1"
  shows "BallList d1 = BallList d2 \<longleftrightarrow> (\<forall>x \<in> set piece_cells. d1 x = d2 x)"
proof
  assume "BallList d1 = BallList d2"
  then have "occupied d1 = occupied d2" by (metis set_BallList)
  then have "\<And>x. x \<in> set piece_cells \<Longrightarrow> (d1 x \<noteq> 0) = (d2 x \<noteq> 0)"
    by (auto simp: occupied_def)
  then show "\<forall>x \<in> set piece_cells. d1 x = d2 x" using assms by metis
next
  assume "\<forall>x \<in> set piece_cells. d1 x = d2 x"
  then show "BallList d1 = BallList d2"
    unfolding BallList_def by (intro filter_cong) auto
qed

subsection \<open>The variants of a piece with cells 0 and 1\<close>

definition Cells01 :: "piece_definition \<Rightarrow> bool" where
  "Cells01 d = list_all (\<lambda>x. d x = 0 \<or> d x = 1) piece_cells"

lemma Cells01_iff: "Cells01 d \<longleftrightarrow> (\<forall>r c. 0 \<le> r \<and> r \<le> 3 \<and> 0 \<le> c \<and> c \<le> 3 \<longrightarrow> d (r, c) = 0 \<or> d (r, c) = 1)"
  by (auto simp: Cells01_def list_all_iff set_piece_cells)

lemma Cells01_Rotate: "Cells01 d \<Longrightarrow> Cells01 (Rotate d z)"
  by (simp add: Cells01_iff Rotate_apply)

lemma Cells01_Flip: "Cells01 d \<Longrightarrow> Cells01 (Flip d z)"
  by (simp add: Cells01_iff Flip_apply)

lemma Cells01_PushUpAndLeft: "Cells01 d \<Longrightarrow> Cells01 (PushUpAndLeft d)"
proof -
  assume a: "Cells01 d"
  obtain mr mc where f: "FindMin d = (mr, mc)" by (cases "FindMin d")
  have rg: "0 \<le> mr" "mr \<le> 3" "0 \<le> mc" "mc \<le> 3" using FindMin_range [OF f] by simp_all
  show ?thesis
    unfolding Cells01_iff PushUpAndLeft_apply [OF f]
    using a rg by (auto simp: Cells01_iff)
qed

lemma Cells01_variants:
  assumes "Cells01 Piece" "v \<in> set (NormalisedVariants Piece)"
  shows "Cells01 v"
  using assms
  by (auto simp: NormalisedVariants_def ExpandPiece_eq Cells01_PushUpAndLeft Cells01_Rotate Cells01_Flip)

lemma Initialize_Orientations:
  assumes "p < NUM_PIECES" "Cells01 (Pieces ! p)"
  shows "Orientations (Initialize Pieces ! p)
         = rev (remdups (rev (map BallList (NormalisedVariants (Pieces ! p)))))"
proof -
  define vs where "vs = map WithPacked (NormalisedVariants (Pieces ! p))"
  have key: "\<And>x y. x \<in> set vs \<Longrightarrow> y \<in> set vs \<Longrightarrow>
      (Packed x = Packed y) = (BallList (Definition x) = BallList (Definition y))"
  proof -
    fix x y assume "x \<in> set vs" "y \<in> set vs"
    then obtain v w where v: "v \<in> set (NormalisedVariants (Pieces ! p))" "x = WithPacked v"
      and w: "w \<in> set (NormalisedVariants (Pieces ! p))" "y = WithPacked w"
      by (auto simp: vs_def)
    have c: "\<forall>x \<in> set piece_cells. v x = 0 \<or> v x = 1" "\<forall>x \<in> set piece_cells. w x = 0 \<or> w x = 1"
      using Cells01_variants [OF assms(2) v(1)] Cells01_variants [OF assms(2) w(1)]
      by (simp_all add: Cells01_def list_all_iff)
    show "(Packed x = Packed y) = (BallList (Definition x) = BallList (Definition y))"
      by (simp add: v(2) w(2) WithPacked_def Packed_eq_iff [OF c] BallList_eq_iff [OF c])
  qed
  have "Orientations (Initialize Pieces ! p) = map (\<lambda>e. BallList (Definition e)) (KeepFirst Packed vs [])"
    unfolding vs_def by (simp add: Initialize_entry(1) [OF assms(1)])
  also have "\<dots> = rev (remdups (rev (map (\<lambda>e. BallList (Definition e)) vs)))"
    by (rule map_KeepFirst) (rule key)
  also have "map (\<lambda>e. BallList (Definition e)) vs = map BallList (NormalisedVariants (Pieces ! p))"
    by (simp add: vs_def WithPacked_def comp_def)
  finally show ?thesis .
qed

text \<open>
  The eight variants in the order of generation, each normalised: the piece, its three
  successive rotations, the flipped piece, its three successive rotations.
\<close>

definition GenerationOrder :: "piece_definition \<Rightarrow> piece_definition list" where
  "GenerationOrder Piece =
     [PushUpAndLeft Piece,
      PushUpAndLeft (Rotate Piece zero_definition),
      PushUpAndLeft (Rotate (Rotate Piece zero_definition) zero_definition),
      PushUpAndLeft (Rotate (Rotate (Rotate Piece zero_definition) zero_definition) zero_definition),
      PushUpAndLeft (Flip Piece zero_definition),
      PushUpAndLeft (Rotate (Flip Piece zero_definition) zero_definition),
      PushUpAndLeft (Rotate (Rotate (Flip Piece zero_definition) zero_definition) zero_definition),
      PushUpAndLeft (Rotate (Rotate (Rotate (Flip Piece zero_definition) zero_definition)
                       zero_definition) zero_definition)]"

text \<open>Every piece of the input has at most \<open>MAX_BALLS\<close> balls, the capacity of \<^verbatim>\<open>Balls\<close>.\<close>

definition PiecesFit :: "piece_definition list \<Rightarrow> bool" where
  "PiecesFit Pieces = list_all (\<lambda>q. card (occupied (Pieces ! q)) \<le> MAX_BALLS) [0..<NUM_PIECES]"

lemma NormalisedVariants_eq: "NormalisedVariants Piece = GenerationOrder Piece"
  by (simp add: NormalisedVariants_def ExpandPiece_eq GenerationOrder_def)

lemma BallList_occupied: "BallList d = filter (\<lambda>x. x \<in> occupied d) piece_cells"
  unfolding BallList_def by (rule filter_cong) (auto simp: occupied_def)

text \<open>Two concrete pieces: one ball, and an L of four balls.\<close>

definition OneBall :: piece_definition where
  "OneBall = (\<lambda>x. if x = (0, 0) then 1 else 0)"

definition EllPiece :: piece_definition where
  "EllPiece = (\<lambda>x. if x = (0, 0) \<or> x = (1, 0) \<or> x = (2, 0) \<or> x = (2, 1) then 1 else 0)"

lemma occupied_OneBall: "occupied OneBall = {(0, 0)}"
  by (auto simp: occupied_iff OneBall_def split: if_splits)

lemma occupied_EllPiece: "occupied EllPiece = {(0, 0), (1, 0), (2, 0), (2, 1)}"
  by (auto simp: occupied_iff EllPiece_def split: if_splits)

lemma occupied_PushUpAndLeft_Min:
  "occupied (PushUpAndLeft d) =
     (\<lambda>(r, c). (r - Min (insert 3 (fst ` occupied d)), c - Min (insert 3 (snd ` occupied d))))
       ` occupied d"
  by (rule occupied_PushUpAndLeft) (rule FindMin_eq)

lemma piece_cells_list:
  "piece_cells = [(0,0),(0,1),(0,2),(0,3),(1,0),(1,1),(1,2),(1,3),
                  (2,0),(2,1),(2,2),(2,3),(3,0),(3,1),(3,2),(3,3)]"
  by (simp add: piece_cells_def MAX_PIECE_SIZE_def upto.simps)

lemma BallLists_OneBall:
  "map BallList (GenerationOrder OneBall) = replicate 8 [(0, 0)]"
  by (simp add: GenerationOrder_def BallList_occupied occupied_PushUpAndLeft_Min occupied_Rotate
      occupied_Flip occupied_OneBall piece_cells_list numeral_eq_Suc)

lemma BallLists_EllPiece:
  "map BallList (GenerationOrder EllPiece) =
    [[(0, 0), (1, 0), (2, 0), (2, 1)], [(0, 0), (0, 1), (0, 2), (1, 0)],
     [(0, 0), (0, 1), (1, 1), (2, 1)], [(0, 2), (1, 0), (1, 1), (1, 2)],
     [(0, 0), (0, 1), (1, 0), (2, 0)], [(0, 0), (0, 1), (0, 2), (1, 2)],
     [(0, 1), (1, 1), (2, 0), (2, 1)], [(0, 0), (1, 0), (1, 1), (1, 2)]]"
  by (simp add: GenerationOrder_def BallList_occupied occupied_PushUpAndLeft_Min occupied_Rotate
      occupied_Flip occupied_EllPiece piece_cells_list)

lemma Initialize_table_entry:
  assumes "p < NUM_PIECES" "Cells01 (Pieces ! p)"
  shows "Initialize Pieces ! p =
     \<lparr>Orientations = rev (remdups (rev (map BallList (GenerationOrder (Pieces ! p))))),
      NumOrientations = length (remdups (rev (map BallList (GenerationOrder (Pieces ! p))))),
      NumBalls = card (occupied (Pieces ! p))\<rparr>"
proof -
  have "Orientations (Initialize Pieces ! p)
        = rev (remdups (rev (map BallList (GenerationOrder (Pieces ! p)))))"
    using Initialize_Orientations [OF assms] by (simp add: NormalisedVariants_eq)
  moreover have "NumOrientations (Initialize Pieces ! p) = length (Orientations (Initialize Pieces ! p))"
    by (rule Initialize_NumBalls(3) [OF assms(1)])
  moreover have "NumBalls (Initialize Pieces ! p) = card (occupied (Pieces ! p))"
    by (rule Initialize_NumBalls(1) [OF assms(1)])
  ultimately show ?thesis by (cases "Initialize Pieces ! p") simp
qed

lemma Cells01_OneBall: "Cells01 OneBall"
  by (simp add: Cells01_iff OneBall_def)

lemma Cells01_EllPiece: "Cells01 EllPiece"
  by (simp add: Cells01_iff EllPiece_def)

subsection \<open>The loop, iteration by iteration\<close>

text \<open>At most \<open>k\<close> passes through the body of the \<^verbatim>\<open>while\<close> loop.\<close>

fun SolveSteps :: "solve_env \<Rightarrow> nat \<Rightarrow> solve_state \<Rightarrow> error + solve_state" where
  "SolveSteps env 0 st = Inr st"
| "SolveSteps env (Suc k) st =
     (if SearchStates st = [] then Inr st
      else case SolveStep env st of Inl e \<Rightarrow> Inl e | Inr st' \<Rightarrow> SolveSteps env k st')"

text \<open>The loop has stopped: the stack is empty, or an assertion has failed.\<close>

definition Finished :: "error + solve_state \<Rightarrow> bool" where
  "Finished r = (case r of Inl e \<Rightarrow> True | Inr st \<Rightarrow> SearchStates st = [])"

text \<open>The number of pieces that a state still has to place.\<close>

definition NumRemaining :: "search_state \<Rightarrow> nat" where
  "NumRemaining s = length (RemainingPieceIdxs (RemainingPieceBitFlags s))"

lemma SolveLoop_finishes:
  "\<exists>k. Finished (SolveSteps env k st) \<and> SolveLoop env st = SolveSteps env k st"
proof (induction env st rule: SolveLoop.induct)
  case (1 env st)
  show ?case
  proof (cases "SearchStates st = []")
    case True
    then have "Finished (SolveSteps env 0 st) \<and> SolveLoop env st = SolveSteps env 0 st"
      by (simp add: Finished_def SolveLoop.simps)
    then show ?thesis by blast
  next
    case False
    show ?thesis
    proof (cases "SolveStep env st")
      case (Inl e)
      then have "Finished (SolveSteps env 1 st) \<and> SolveLoop env st = SolveSteps env 1 st"
        using False by (simp add: Finished_def SolveLoop.simps [of env st])
      then show ?thesis by blast
    next
      case (Inr st')
      from "1" [OF False Inr] obtain k where
        k: "Finished (SolveSteps env k st')" "SolveLoop env st' = SolveSteps env k st'" by blast
      have "Finished (SolveSteps env (Suc k) st) \<and> SolveLoop env st = SolveSteps env (Suc k) st"
        using False Inr k by (simp add: SolveLoop.simps [of env st])
      then show ?thesis by blast
    qed
  qed
qed





subsection \<open>Placements\<close>

text \<open>The cells that an attempt covers: the balls of the orientation, the anchor on the target.\<close>

definition PlacedCells :: "solve_env \<Rightarrow> int \<times> int \<Rightarrow> nat \<times> nat \<times> nat \<Rightarrow> (int \<times> int) set" where
  "PlacedCells env Target = (\<lambda>(PieceIdx, OrientationIdx, PlacedBallIdx).
     let Piece = SearchPieces env ! PieceIdx;
         Orientation = Orientations Piece ! OrientationIdx
     in (\<lambda>BallIdx. (fst Target - fst (Orientation ! PlacedBallIdx) + fst (Orientation ! BallIdx),
                     snd Target - snd (Orientation ! PlacedBallIdx) + snd (Orientation ! BallIdx)))
          ` set [0..<NumBalls Piece])"

text \<open>The cells of the logical extents.\<close>

definition InExtents :: "solve_env \<Rightarrow> int \<times> int \<Rightarrow> bool" where
  "InExtents env = (\<lambda>(r, c). 0 \<le> r \<and> r < NumRows env \<and> 0 \<le> c \<and> c < NumCols env)"

lemma fold_fill:
  assumes F: "\<And>x T. F x T = T(g x := v)"
  shows "fold F xs T y = (if y \<in> g ` set xs then v else T y)"
  by (induction xs arbitrary: T) (auto simp: F)

lemma PlaceBalls_apply:
  "PlaceBalls B Target Offset Orientation n v cell =
     (if cell \<in> (\<lambda>BallIdx. (fst Target + fst Offset + fst (Orientation ! BallIdx),
                             snd Target + snd Offset + snd (Orientation ! BallIdx))) ` set [0..<n]
      then v else B cell)"
proof -
  define F where "F = (\<lambda>BallIdx (B' :: board).
             B'((fst Target + fst Offset + fst (Orientation ! BallIdx),
                 snd Target + snd Offset + snd (Orientation ! BallIdx)) := v))"
  have F: "\<And>x T. F x T = T((fst Target + fst Offset + fst (Orientation ! x),
                 snd Target + snd Offset + snd (Orientation ! x)) := v)"
    by (simp add: F_def)
  have "PlaceBalls B Target Offset Orientation n v = fold F [0..<n] B"
    by (simp add: PlaceBalls_def F_def)
  then show ?thesis by (simp only: fold_fill [OF F])
qed

lemma Board_NewSearchState:
  "Board (NewSearchState env s Target p o' a) cell =
     (if cell \<in> PlacedCells env Target (p, o', a) then PieceIndexToCellValue p else Board s cell)"
  by (simp add: NewSearchState_def Let_def PlaceBalls_apply PlacedCells_def)

lemma EmptyCellIdx_NewSearchState:
  "EmptyCellIdx (NewSearchState env s Target p o' a) = (EmptyCellIdx s + 1) mod 256"
  by (simp add: NewSearchState_def Let_def)

lemma Flags_NewSearchState:
  "RemainingPieceBitFlags (NewSearchState env s Target p o' a)
   = RemainingPieceBitFlags s AND NOT (push_bit p 1)"
  by (simp add: NewSearchState_def Let_def)

lemma CanPlace_iff:
  "CanPlace env B Target (p, o', a) \<longleftrightarrow>
     (\<forall>i < NumBalls (SearchPieces env ! p).
        let cell = (fst Target - fst (Orientations (SearchPieces env ! p) ! o' ! a)
                      + fst (Orientations (SearchPieces env ! p) ! o' ! i),
                    snd Target - snd (Orientations (SearchPieces env ! p) ! o' ! a)
                      + snd (Orientations (SearchPieces env ! p) ! o' ! i))
        in InExtents env cell \<and> B cell = Empty)"
  by (auto simp: CanPlace_eq list_all_iff BallOk_def Let_def InExtents_def)

lemma CanPlace_cells:
  "CanPlace env B Target x \<longleftrightarrow> (\<forall>cell \<in> PlacedCells env Target x. InExtents env cell \<and> B cell = Empty)"
proof -
  obtain p o' a where x: "x = (p, o', a)" by (cases x)
  show ?thesis unfolding x CanPlace_iff by (auto simp: PlacedCells_def Let_def)
qed

lemma Target_in_PlacedCells:
  assumes "a < NumBalls (SearchPieces env ! p)"
  shows "Target \<in> PlacedCells env Target (p, o', a)"
  unfolding PlacedCells_def Let_def prod.case
  by (rule image_eqI [where x = a]) (use assms in simp_all)

lemma FindEmptyCell_next:
  "i < length Cells \<Longrightarrow> B (Cells ! i) \<noteq> Empty \<Longrightarrow>
   FindEmptyCell B Cells i = FindEmptyCell B Cells (i + 1)"
  by (subst FindEmptyCell.simps) simp

lemma FindEmptyCell_stop:
  "\<not> (i < length Cells \<and> B (Cells ! i) \<noteq> Empty) \<Longrightarrow> FindEmptyCell B Cells i = i"
  by (subst FindEmptyCell.simps) auto

lemma FindEmptyCell_ge: "i \<le> FindEmptyCell B Cells i"
proof (induction B Cells i rule: FindEmptyCell.induct)
  case (1 B Cells i)
  show ?case
  proof (cases "i < length Cells \<and> B (Cells ! i) \<noteq> Empty")
    case True
    then have "i + 1 \<le> FindEmptyCell B Cells (i + 1)" using 1 by simp
    then show ?thesis using True by (simp add: FindEmptyCell_next)
  next
    case False
    then show ?thesis by (simp add: FindEmptyCell_stop)
  qed
qed

lemma FindEmptyCell_found:
  "FindEmptyCell B Cells i < length Cells \<Longrightarrow> B (Cells ! FindEmptyCell B Cells i) = Empty"
proof (induction B Cells i rule: FindEmptyCell.induct)
  case (1 B Cells i)
  show ?case
  proof (cases "i < length Cells \<and> B (Cells ! i) \<noteq> Empty")
    case True
    then have f: "FindEmptyCell B Cells i = FindEmptyCell B Cells (i + 1)"
      by (simp add: FindEmptyCell_next)
    show ?thesis unfolding f using 1 True f by simp
  next
    case False
    then have f: "FindEmptyCell B Cells i = i"
      by (rule FindEmptyCell_stop)
    show ?thesis unfolding f using "1.prems" False f by auto
  qed
qed

lemma FindEmptyCell_skipped:
  "i \<le> j \<Longrightarrow> j < FindEmptyCell B Cells i \<Longrightarrow> j < length Cells \<Longrightarrow> B (Cells ! j) \<noteq> Empty"
proof (induction B Cells i rule: FindEmptyCell.induct)
  case (1 B Cells i)
  show ?case
  proof (cases "i < length Cells \<and> B (Cells ! i) \<noteq> Empty")
    case True
    then have f: "FindEmptyCell B Cells i = FindEmptyCell B Cells (i + 1)"
      by (simp add: FindEmptyCell_next)
    show ?thesis
    proof (cases "i = j")
      case True
      then show ?thesis using \<open>i < length Cells \<and> B (Cells ! i) \<noteq> Empty\<close> by simp
    next
      case False
      then show ?thesis using 1 True f by auto
    qed
  next
    case False
    then have "FindEmptyCell B Cells i = i"
      by (rule FindEmptyCell_stop)
    then show ?thesis using "1.prems" by simp
  qed
qed

subsection \<open>Concrete piece tables and boards\<close>

definition Domino :: piece_definition where
  "Domino = (\<lambda>x. if x = (0, 0) \<or> x = (0, 1) then 1 else 0)"

lemma occupied_Domino: "occupied Domino = {(0, 0), (0, 1)}"
  by (auto simp: occupied_iff Domino_def split: if_splits)

lemma Cells01_Domino: "Cells01 Domino"
  by (simp add: Cells01_iff Domino_def)

lemma BallLists_Domino:
  "map BallList (GenerationOrder Domino) =
    [[(0, 0), (0, 1)], [(0, 0), (1, 0)], [(0, 0), (0, 1)], [(0, 0), (1, 0)],
     [(0, 0), (0, 1)], [(0, 0), (1, 0)], [(0, 0), (0, 1)], [(0, 0), (1, 0)]]"
  by (simp add: GenerationOrder_def BallList_occupied occupied_PushUpAndLeft_Min occupied_Rotate
      occupied_Flip occupied_Domino piece_cells_list)

definition OneBallEntry :: search_piece where
  "OneBallEntry = \<lparr>Orientations = [[(0, 0)]], NumOrientations = 1, NumBalls = 1\<rparr>"

definition DominoEntry :: search_piece where
  "DominoEntry = \<lparr>Orientations = [[(0, 0), (0, 1)], [(0, 0), (1, 0)]], NumOrientations = 2,
                  NumBalls = 2\<rparr>"

lemma Initialize_OneBalls: "Initialize (replicate 12 OneBall) = replicate 12 OneBallEntry"
proof (rule nth_equalityI)
  show "length (Initialize (replicate 12 OneBall)) = length (replicate 12 OneBallEntry)"
    by (simp add: length_Initialize NUM_PIECES_def)
next
  fix p assume "p < length (Initialize (replicate 12 OneBall))"
  then have p: "p < 12" "p < NUM_PIECES" by (simp_all add: length_Initialize NUM_PIECES_def)
  have c: "Cells01 (replicate 12 OneBall ! p)" using p by (simp add: Cells01_OneBall)
  have r: "replicate 12 OneBall ! p = OneBall" using p by simp
  have b: "map BallList (GenerationOrder OneBall) =
      [[(0, 0)], [(0, 0)], [(0, 0)], [(0, 0)], [(0, 0)], [(0, 0)], [(0, 0)], [(0, 0)]]"
    unfolding BallLists_OneBall by (simp add: numeral_eq_Suc)
  have "Initialize (replicate 12 OneBall) ! p = OneBallEntry"
    unfolding Initialize_table_entry [OF p(2) c] r b occupied_OneBall OneBallEntry_def by simp
  then show "Initialize (replicate 12 OneBall) ! p = replicate 12 OneBallEntry ! p"
    using p by simp
qed

lemma Initialize_Dominoes: "Initialize (replicate 12 Domino) = replicate 12 DominoEntry"
proof (rule nth_equalityI)
  show "length (Initialize (replicate 12 Domino)) = length (replicate 12 DominoEntry)"
    by (simp add: length_Initialize NUM_PIECES_def)
next
  fix p assume "p < length (Initialize (replicate 12 Domino))"
  then have p: "p < 12" "p < NUM_PIECES" by (simp_all add: length_Initialize NUM_PIECES_def)
  have c: "Cells01 (replicate 12 Domino ! p)" using p by (simp add: Cells01_Domino)
  have r: "replicate 12 Domino ! p = Domino" using p by simp
  have "Initialize (replicate 12 Domino) ! p = DominoEntry"
    unfolding Initialize_table_entry [OF p(2) c] r BallLists_Domino occupied_Domino DominoEntry_def
    by simp
  then show "Initialize (replicate 12 Domino) ! p = replicate 12 DominoEntry ! p"
    using p by simp
qed

text \<open>A board of one row: the given cell values in row 0, \<open>Invalid\<close> everywhere else.\<close>

definition RowBoard :: "cell_value list \<Rightarrow> board" where
  "RowBoard vs = (\<lambda>(r, c). if r = 0 \<and> 0 \<le> c \<and> c < int (length vs) then vs ! nat c else Invalid)"

text \<open>What a run leaves behind, in comparable form: stack height, number of solutions, counters.\<close>

definition Outcome :: "error + solve_state \<Rightarrow> error + nat \<times> nat \<times> u64 \<times> u64 \<times> u64" where
  "Outcome r = (case r of Inl e \<Rightarrow> Inl e
     | Inr st \<Rightarrow> Inr (length (SearchStates st), length (OutSolutions st),
                      OutNumBoardStatesTested st, OutNumOrientationsTested st,
                      OutNumBallsTested st))"

text \<open>The cells of row 0 of the solutions, columns 0 to \<open>n - 1\<close>.\<close>

definition SolutionRows :: "int \<Rightarrow> error + solve_state \<Rightarrow> cell_value list list" where
  "SolutionRows n r = (case r of Inl e \<Rightarrow> []
     | Inr st \<Rightarrow> map (\<lambda>B. map (\<lambda>c. B (0, c)) [0..n - 1]) (OutSolutions st))"

subsection \<open>States without a cell to fill\<close>

lemma TargetOf_exhausted: "\<not> ScanFound env s \<Longrightarrow> TargetOf env s = Indeterminate env"
  by (simp add: TargetOf_def ScanFound_def Let_def)

lemma no_Children:
  assumes "\<And>cell. InExtents env cell \<Longrightarrow> Board s cell \<noteq> Empty"
  shows "Children env s Target = []"
proof -
  have "\<And>x. x \<in> set (Attempts env (RemainingPieceBitFlags s)) \<Longrightarrow> \<not> CanPlace env (Board s) Target x"
  proof
    fix x assume x: "x \<in> set (Attempts env (RemainingPieceBitFlags s))"
      and c: "CanPlace env (Board s) Target x"
    obtain p o' a where e: "x = (p, o', a)" by (cases x)
    have "a < NumBalls (SearchPieces env ! p)" using x by (simp add: e Attempts_piece)
    then have "Target \<in> PlacedCells env Target x"
      unfolding e by (rule Target_in_PlacedCells)
    then have "InExtents env Target \<and> Board s Target = Empty"
      using c by (simp add: CanPlace_cells)
    then show False using assms by blast
  qed
  then have "filter (CanPlace env (Board s) Target) (Attempts env (RemainingPieceBitFlags s)) = []"
    by (simp add: filter_empty_conv)
  then show ?thesis by (simp add: Children_def)
qed

lemma set_board_cells: "set board_cells = {(r, c). 0 \<le> r \<and> r \<le> 15 \<and> 0 \<le> c \<and> c \<le> 15}"
  by (auto simp: board_cells_def MAX_BOARD_SIZE_def)

lemma set_EmptyCellsOf:
  "set (EmptyCellsOf B) = {(r, c). 0 \<le> r \<and> r \<le> 15 \<and> 0 \<le> c \<and> c \<le> 15 \<and> B (r, c) = Empty}"
  by (auto simp: EmptyCellsOf_def set_board_cells)

lemma ScanFound_no_cells: "InputBoardEmptyCells env = [] \<Longrightarrow> \<not> ScanFound env s"
  by (simp add: ScanFound_def)

subsection \<open>What \<open>Solve\<close> starts the loop with\<close>

definition SolveEnv ::
  "bool \<Rightarrow> int \<times> int \<Rightarrow> search_piece list \<Rightarrow> board \<Rightarrow> int \<Rightarrow> int \<Rightarrow> solve_env" where
  "SolveEnv fast Indet Pieces InputBoard NumRows' NumCols' =
     \<lparr>Fast = fast, Indeterminate = Indet, SearchPieces = Pieces,
      NumRows = NumRows', NumCols = NumCols',
      InputBoardEmptyCells = EmptyCellsOf InputBoard\<rparr>"

definition InitialSearchState :: "board \<Rightarrow> int \<Rightarrow> int \<Rightarrow> search_state" where
  "InitialSearchState InputBoard NumRows' NumCols' =
     \<lparr>Board = InputBoard,
      RemainingPieceBitFlags = InitialFlags InputBoard NumRows' NumCols',
      EmptyCellIdx = 0\<rparr>"

definition SolveStart :: "bool \<Rightarrow> board \<Rightarrow> int \<Rightarrow> int \<Rightarrow> u64 \<Rightarrow> u64 \<Rightarrow> u64 \<Rightarrow> solve_state" where
  "SolveStart fast InputBoard NumRows' NumCols' N1 N2 N3 =
     \<lparr>SearchStates = [InitialSearchState InputBoard NumRows' NumCols'], OutSolutions = [],
      OutNumBoardStatesTested = (if WITH_STATS fast then 0 else N1),
      OutNumOrientationsTested = (if WITH_STATS fast then 0 else N2),
      OutNumBallsTested = (if WITH_STATS fast then 0 else N3)\<rparr>"

lemma Solve_eq:
  "Solve fast Indet Pieces InputBoard NumRows' NumCols' N1 N2 N3 =
     (if NUM_VALID_CELLS < length (EmptyCellsOf InputBoard) then Inl ArrayOverrun
      else SolveLoop (SolveEnv fast Indet Pieces InputBoard NumRows' NumCols')
                     (SolveStart fast InputBoard NumRows' NumCols' N1 N2 N3))"
  by (simp add: Solve_def SolveEnv_def SolveStart_def InitialSearchState_def Let_def)

lemma Solve_within:
  assumes "length (EmptyCellsOf InputBoard) \<le> NUM_VALID_CELLS"
  shows "Solve fast Indet Pieces InputBoard NumRows' NumCols' N1 N2 N3 =
     SolveLoop (SolveEnv fast Indet Pieces InputBoard NumRows' NumCols')
               (SolveStart fast InputBoard NumRows' NumCols' N1 N2 N3)"
  using assms by (simp add: Solve_eq)

lemma Solve_Inr:
  assumes "Solve fast Indet Pieces InputBoard NumRows' NumCols' N1 N2 N3 = Inr st'"
  shows "SolveLoop (SolveEnv fast Indet Pieces InputBoard NumRows' NumCols')
                   (SolveStart fast InputBoard NumRows' NumCols' N1 N2 N3) = Inr st'"
  using assms by (simp add: Solve_eq split: if_splits)

subsection \<open>The states the loop pops, and what it counts\<close>

text \<open>The states popped from the stack, in the order of popping.\<close>

function PoppedStates :: "solve_env \<Rightarrow> solve_state \<Rightarrow> search_state list" where
  "PoppedStates env st =
     (if SearchStates st = [] then []
      else last (SearchStates st)
           # (case SolveStep env st of Inl e \<Rightarrow> [] | Inr st' \<Rightarrow> PoppedStates env st'))"
  by pat_completeness auto
termination
proof (relation "inv_image (mult {(a, b). a < b}) (\<lambda>(env, st). StackMeasure st)")
  show "wf (inv_image (mult {(a :: nat, b). a < b}) (\<lambda>(env, st). StackMeasure st))"
    by (intro wf_inv_image wf_mult wf_less)
next
  fix env st x2
  assume "SearchStates st \<noteq> []" "SolveStep env st = Inr x2"
  then show "((env, x2), (env, st)) \<in> inv_image (mult {(a, b). a < b}) (\<lambda>(env, st). StackMeasure st)"
    by (simp add: SolveStep_decreases)
qed

declare PoppedStates.simps [simp del]

text \<open>The placement attempts and the ball checks that popping one state causes.\<close>

definition AttemptsOf :: "solve_env \<Rightarrow> search_state \<Rightarrow> nat" where
  "AttemptsOf env s = length (Attempts env (RemainingPieceBitFlags s))"

definition BallChecksOf :: "solve_env \<Rightarrow> search_state \<Rightarrow> nat" where
  "BallChecksOf env s =
     sum_list (map (BallChecks env (Board s) (TargetOf env s))
                   (Attempts env (RemainingPieceBitFlags s)))"

lemma SolveStep_counters:
  assumes "SolveStep env st = Inr st'"
  shows "OutNumBoardStatesTested st' =
           (if WITH_STATS (Fast env) then OutNumBoardStatesTested st + 1
            else OutNumBoardStatesTested st)"
    and "OutNumOrientationsTested st' =
           (if WITH_STATS (Fast env)
            then OutNumOrientationsTested st + of_nat (AttemptsOf env (last (SearchStates st)))
            else OutNumOrientationsTested st)"
    and "OutNumBallsTested st' =
           (if WITH_STATS (Fast env)
            then OutNumBallsTested st + of_nat (BallChecksOf env (last (SearchStates st)))
            else OutNumBallsTested st)"
  unfolding SolveStep_Inr(1) [OF assms]
  by (simp_all add: TryPieces_eq Let_def AttemptsOf_def BallChecksOf_def)

lemma SolveSteps_counters:
  "SolveSteps env k st = Inr st' \<Longrightarrow>
   OutNumBoardStatesTested st' =
     (if WITH_STATS (Fast env)
      then OutNumBoardStatesTested st + of_nat (length (take k (PoppedStates env st)))
      else OutNumBoardStatesTested st)
   \<and> OutNumOrientationsTested st' =
     (if WITH_STATS (Fast env)
      then OutNumOrientationsTested st
           + of_nat (sum_list (map (AttemptsOf env) (take k (PoppedStates env st))))
      else OutNumOrientationsTested st)
   \<and> OutNumBallsTested st' =
     (if WITH_STATS (Fast env)
      then OutNumBallsTested st
           + of_nat (sum_list (map (BallChecksOf env) (take k (PoppedStates env st))))
      else OutNumBallsTested st)"
proof (induction k arbitrary: st)
  case 0
  then show ?case by simp
next
  case (Suc k)
  show ?case
  proof (cases "SearchStates st = []")
    case True
    then have "st' = st" using Suc.prems by simp
    moreover have "PoppedStates env st = []" using True by (simp add: PoppedStates.simps)
    ultimately show ?thesis by simp
  next
    case False
    obtain st1 where s1: "SolveStep env st = Inr st1"
      using Suc.prems False by (cases "SolveStep env st") simp_all
    have r: "SolveSteps env k st1 = Inr st'" using Suc.prems False s1 by simp
    have P: "PoppedStates env st = last (SearchStates st) # PoppedStates env st1"
      using False s1 by (simp add: PoppedStates.simps [of env st])
    note C = SolveStep_counters [OF s1]
    show ?thesis
      using Suc.IH [OF r] by (simp add: P C add.assoc)
  qed
qed

lemma PoppedStates_length:
  "SolveSteps env k st = Inr st' \<Longrightarrow> SearchStates st' = [] \<Longrightarrow>
   length (PoppedStates env st) \<le> k"
proof (induction k arbitrary: st)
  case 0
  then show ?case by (simp add: PoppedStates.simps)
next
  case (Suc k)
  show ?case
  proof (cases "SearchStates st = []")
    case True
    then show ?thesis by (simp add: PoppedStates.simps)
  next
    case False
    obtain st1 where s1: "SolveStep env st = Inr st1"
      using Suc.prems False by (cases "SolveStep env st") simp_all
    have r: "SolveSteps env k st1 = Inr st'" using Suc.prems False s1 by simp
    have P: "PoppedStates env st = last (SearchStates st) # PoppedStates env st1"
      using False s1 by (simp add: PoppedStates.simps [of env st])
    show ?thesis using Suc.IH [OF r Suc.prems(2)] by (simp add: P)
  qed
qed

lemma SolveLoop_counters:
  assumes "SolveLoop env st = Inr st'"
  shows "OutNumBoardStatesTested st' =
     (if WITH_STATS (Fast env)
      then OutNumBoardStatesTested st + of_nat (length (PoppedStates env st))
      else OutNumBoardStatesTested st)
   \<and> OutNumOrientationsTested st' =
     (if WITH_STATS (Fast env)
      then OutNumOrientationsTested st
           + of_nat (sum_list (map (AttemptsOf env) (PoppedStates env st)))
      else OutNumOrientationsTested st)
   \<and> OutNumBallsTested st' =
     (if WITH_STATS (Fast env)
      then OutNumBallsTested st
           + of_nat (sum_list (map (BallChecksOf env) (PoppedStates env st)))
      else OutNumBallsTested st)"
proof -
  obtain k where k: "Finished (SolveSteps env k st)" "SolveLoop env st = SolveSteps env k st"
    using SolveLoop_finishes by blast
  have r: "SolveSteps env k st = Inr st'" using k(2) assms by simp
  have "SearchStates st' = []" using k(1) r by (simp add: Finished_def)
  then have "length (PoppedStates env st) \<le> k" by (rule PoppedStates_length [OF r])
  then have "take k (PoppedStates env st) = PoppedStates env st" by simp
  then show ?thesis using SolveSteps_counters [OF r] by simp
qed

subsection \<open>Complete tilings\<close>

text \<open>
  A piece table as \<open>Initialize\<close> builds it from pieces of 1 to \<open>MAX_BALLS\<close> balls: twelve
  entries; \<open>NumOrientations\<close> and \<open>NumBalls\<close> are the lengths of the lists; the balls of an
  orientation are distinct.
\<close>

definition WellFormedTable :: "search_piece list \<Rightarrow> bool" where
  "WellFormedTable Pieces =
     (length Pieces = NUM_PIECES
      \<and> list_all (\<lambda>Piece. NumOrientations Piece = length (Orientations Piece)
                          \<and> 0 < NumBalls Piece \<and> NumBalls Piece \<le> MAX_BALLS
                          \<and> list_all (\<lambda>Balls. length Balls = NumBalls Piece \<and> distinct Balls)
                                      (Orientations Piece))
                  Pieces)"

text \<open>The cells of an orientation of a piece, moved by an offset.\<close>

definition OrientationCells :: "solve_env \<Rightarrow> nat \<Rightarrow> nat \<Rightarrow> int \<times> int \<Rightarrow> (int \<times> int) set" where
  "OrientationCells env PieceIdx OrientationIdx Offset =
     (\<lambda>BallIdx. (fst Offset + fst (Orientations (SearchPieces env ! PieceIdx) ! OrientationIdx ! BallIdx),
                  snd Offset + snd (Orientations (SearchPieces env ! PieceIdx) ! OrientationIdx ! BallIdx)))
       ` set [0..<NumBalls (SearchPieces env ! PieceIdx)]"

text \<open>
  A tiling gives every piece an orientation and an offset. It is valid for a board and a
  list of pieces when every piece of the list lies in one of its stored orientations on
  \<open>Empty\<close> cells of the logical extents, no two pieces share a cell, and every \<open>Empty\<close>
  cell of the extents is covered.
\<close>

type_synonym tiling = "nat \<Rightarrow> nat \<times> (int \<times> int)"

definition TileCells :: "solve_env \<Rightarrow> tiling \<Rightarrow> nat \<Rightarrow> (int \<times> int) set" where
  "TileCells env t p = OrientationCells env p (fst (t p)) (snd (t p))"

definition EmptyIn :: "solve_env \<Rightarrow> board \<Rightarrow> (int \<times> int) set" where
  "EmptyIn env B = {x. InExtents env x \<and> B x = Empty}"

definition ValidTiling :: "solve_env \<Rightarrow> board \<Rightarrow> nat list \<Rightarrow> tiling \<Rightarrow> bool" where
  "ValidTiling env B ps t =
     ((\<forall>p \<in> set ps. fst (t p) < NumOrientations (SearchPieces env ! p)
                    \<and> TileCells env t p \<subseteq> EmptyIn env B)
      \<and> (\<forall>p \<in> set ps. \<forall>q \<in> set ps. p \<noteq> q \<longrightarrow> TileCells env t p \<inter> TileCells env t q = {})
      \<and> EmptyIn env B \<subseteq> (\<Union>p \<in> set ps. TileCells env t p))"

text \<open>The board with the pieces of a tiling written on it.\<close>

definition TiledBoard :: "solve_env \<Rightarrow> board \<Rightarrow> nat list \<Rightarrow> tiling \<Rightarrow> board" where
  "TiledBoard env B ps t =
     fold (\<lambda>p B'. (\<lambda>x. if x \<in> TileCells env t p then PieceIndexToCellValue p else B' x)) ps B"

definition Tilings :: "solve_env \<Rightarrow> board \<Rightarrow> nat list \<Rightarrow> board set" where
  "Tilings env B ps = {TiledBoard env B ps t | t. ValidTiling env B ps t}"

lemma TiledBoard_outside:
  "(\<forall>p \<in> set ps. x \<notin> TileCells env t p) \<Longrightarrow> TiledBoard env B ps t x = B x"
  unfolding TiledBoard_def
  by (induction ps arbitrary: B) simp_all

lemma TiledBoard_inside:
  assumes "\<forall>p \<in> set ps. \<forall>q \<in> set ps. p \<noteq> q \<longrightarrow> TileCells env t p \<inter> TileCells env t q = {}"
    and "p \<in> set ps" and "x \<in> TileCells env t p"
  shows "TiledBoard env B ps t x = PieceIndexToCellValue p"
  using assms
proof (induction ps arbitrary: B)
  case Nil
  then show ?case by simp
next
  case (Cons q ps)
  define B' where "B' = (\<lambda>x. if x \<in> TileCells env t q then PieceIndexToCellValue q else B x)"
  have step: "TiledBoard env B (q # ps) t = TiledBoard env B' ps t"
    by (simp add: TiledBoard_def B'_def)
  show ?case
  proof (cases "p \<in> set ps")
    case True
    have "TiledBoard env B' ps t x = PieceIndexToCellValue p"
      by (rule Cons.IH) (use Cons.prems True in auto)
    then show ?thesis by (simp add: step)
  next
    case False
    then have pq: "p = q" using Cons.prems(2) by simp
    have "\<forall>r \<in> set ps. x \<notin> TileCells env t r"
    proof
      fix r assume r: "r \<in> set ps"
      then have "r \<noteq> q" using False pq by auto
      then have "TileCells env t q \<inter> TileCells env t r = {}"
        using Cons.prems(1) r by simp
      then show "x \<notin> TileCells env t r" using Cons.prems(3) pq by auto
    qed
    then have "TiledBoard env B' ps t x = B' x" by (rule TiledBoard_outside)
    then show ?thesis using Cons.prems(3) pq by (simp add: step B'_def)
  qed
qed

lemma PieceIndexToCellValue_not_Empty: "p < NUM_PIECES \<Longrightarrow> PieceIndexToCellValue p \<noteq> Empty"
proof -
  assume "p < NUM_PIECES"
  then have "p \<in> set [0..<12]" by (simp add: NUM_PIECES_def)
  then have "p \<in> {0, 1, 2, 3, 4, 5, 6, 7, 8, 9, 10, 11}"
    by (simp add: upt_rec numeral_eq_Suc)
  then show ?thesis
    by (auto simp: PieceIndexToCellValue_def Piece01_def Empty_def)
qed

lemma PlacedCells_OrientationCells:
  "PlacedCells env Target (p, o', a) =
     OrientationCells env p o'
       (fst Target - fst (Orientations (SearchPieces env ! p) ! o' ! a),
        snd Target - snd (Orientations (SearchPieces env ! p) ! o' ! a))"
  by (simp add: PlacedCells_def OrientationCells_def Let_def)

lemma OrientationCells_anchor:
  assumes "x \<in> OrientationCells env p o' off"
  shows "\<exists>a < NumBalls (SearchPieces env ! p).
           OrientationCells env p o' off = PlacedCells env x (p, o', a)"
proof -
  obtain a where a: "a < NumBalls (SearchPieces env ! p)"
    and x: "x = (fst off + fst (Orientations (SearchPieces env ! p) ! o' ! a),
                 snd off + snd (Orientations (SearchPieces env ! p) ! o' ! a))"
    using assms by (auto simp: OrientationCells_def)
  have "off = (fst x - fst (Orientations (SearchPieces env ! p) ! o' ! a),
               snd x - snd (Orientations (SearchPieces env ! p) ! o' ! a))"
    by (simp add: x)
  then have "OrientationCells env p o' off = PlacedCells env x (p, o', a)"
    by (simp only: PlacedCells_OrientationCells)
  then show ?thesis using a by blast
qed

subsection \<open>A tiling starts with the piece on the target cell\<close>

text \<open>The board after an attempt has been placed.\<close>

definition PlacedBoard :: "solve_env \<Rightarrow> board \<Rightarrow> int \<times> int \<Rightarrow> nat \<times> nat \<times> nat \<Rightarrow> board" where
  "PlacedBoard env B Target x =
     (\<lambda>cell. if cell \<in> PlacedCells env Target x then PieceIndexToCellValue (fst x) else B cell)"

lemma Board_NewSearchState_PlacedBoard:
  "Board (NewSearchState env s Target p o' a) = PlacedBoard env (Board s) Target (p, o', a)"
  by (simp add: fun_eq_iff Board_NewSearchState PlacedBoard_def)

lemma EmptyIn_PlacedBoard:
  assumes "p < NUM_PIECES"
  shows "EmptyIn env (PlacedBoard env B Target (p, o', a))
         = EmptyIn env B - PlacedCells env Target (p, o', a)"
  using PieceIndexToCellValue_not_Empty [OF assms]
  by (auto simp: EmptyIn_def PlacedBoard_def)

lemma CanPlace_EmptyIn:
  "CanPlace env B Target x \<longleftrightarrow> PlacedCells env Target x \<subseteq> EmptyIn env B"
  by (auto simp: CanPlace_cells EmptyIn_def)

lemma Tilings_first_piece:
  assumes t: "ValidTiling env B ps t" and T: "Target \<in> EmptyIn env B"
    and lt: "\<forall>p \<in> set ps. p < NUM_PIECES"
  shows "\<exists>p o' a. p \<in> set ps \<and> o' < NumOrientations (SearchPieces env ! p)
           \<and> a < NumBalls (SearchPieces env ! p) \<and> CanPlace env B Target (p, o', a)
           \<and> ValidTiling env (PlacedBoard env B Target (p, o', a)) (removeAll p ps) t
           \<and> TiledBoard env (PlacedBoard env B Target (p, o', a)) (removeAll p ps) t
               = TiledBoard env B ps t"
proof -
  have v1: "\<And>p. p \<in> set ps \<Longrightarrow> fst (t p) < NumOrientations (SearchPieces env ! p)"
    and v2: "\<And>p. p \<in> set ps \<Longrightarrow> TileCells env t p \<subseteq> EmptyIn env B"
    and v3: "\<And>p q. p \<in> set ps \<Longrightarrow> q \<in> set ps \<Longrightarrow> p \<noteq> q \<Longrightarrow>
               TileCells env t p \<inter> TileCells env t q = {}"
    and v4: "EmptyIn env B \<subseteq> (\<Union>p \<in> set ps. TileCells env t p)"
    using t by (auto simp: ValidTiling_def)
  obtain p where p: "p \<in> set ps" "Target \<in> TileCells env t p" using v4 T by auto
  define o' where "o' = fst (t p)"
  obtain a where a: "a < NumBalls (SearchPieces env ! p)"
    and cells: "TileCells env t p = PlacedCells env Target (p, o', a)"
    using OrientationCells_anchor [of Target env p "fst (t p)" "snd (t p)"] p(2)
    by (auto simp: TileCells_def o'_def)
  define B' where "B' = PlacedBoard env B Target (p, o', a)"
  have pl: "p < NUM_PIECES" using lt p(1) by simp
  have E': "EmptyIn env B' = EmptyIn env B - TileCells env t p"
    unfolding B'_def cells by (rule EmptyIn_PlacedBoard [OF pl])
  have can: "CanPlace env B Target (p, o', a)"
    using v2 [OF p(1)] by (simp add: CanPlace_EmptyIn cells)
  have valid': "ValidTiling env B' (removeAll p ps) t"
    unfolding ValidTiling_def
  proof (intro conjI ballI impI)
    fix q assume q: "q \<in> set (removeAll p ps)"
    then have q': "q \<in> set ps" "q \<noteq> p" by auto
    show "fst (t q) < NumOrientations (SearchPieces env ! q)" by (rule v1 [OF q'(1)])
    have "TileCells env t q \<inter> TileCells env t p = {}" by (rule v3 [OF q'(1) p(1) q'(2)])
    then show "TileCells env t q \<subseteq> EmptyIn env B'" using v2 [OF q'(1)] by (auto simp: E')
  next
    fix q r assume "q \<in> set (removeAll p ps)" "r \<in> set (removeAll p ps)" "q \<noteq> r"
    then show "TileCells env t q \<inter> TileCells env t r = {}" using v3 by auto
  next
    show "EmptyIn env B' \<subseteq> (\<Union>q \<in> set (removeAll p ps). TileCells env t q)"
    proof
      fix x assume "x \<in> EmptyIn env B'"
      then have x: "x \<in> EmptyIn env B" "x \<notin> TileCells env t p" by (simp_all add: E')
      then obtain q where "q \<in> set ps" "x \<in> TileCells env t q" using v4 by auto
      moreover then have "q \<noteq> p" using x(2) by auto
      ultimately show "x \<in> (\<Union>q \<in> set (removeAll p ps). TileCells env t q)" by auto
    qed
  qed
  have same: "TiledBoard env B' (removeAll p ps) t = TiledBoard env B ps t"
  proof (rule ext)
    fix x
    have d: "\<forall>q \<in> set ps. \<forall>r \<in> set ps. q \<noteq> r \<longrightarrow> TileCells env t q \<inter> TileCells env t r = {}"
      using v3 by blast
    have d': "\<forall>q \<in> set (removeAll p ps). \<forall>r \<in> set (removeAll p ps). q \<noteq> r \<longrightarrow>
                TileCells env t q \<inter> TileCells env t r = {}"
      using v3 by auto
    show "TiledBoard env B' (removeAll p ps) t x = TiledBoard env B ps t x"
    proof (cases "\<exists>q \<in> set ps. x \<in> TileCells env t q")
      case True
      then obtain q where q: "q \<in> set ps" "x \<in> TileCells env t q" by blast
      have r: "TiledBoard env B ps t x = PieceIndexToCellValue q"
        by (rule TiledBoard_inside [OF d q])
      show ?thesis
      proof (cases "q = p")
        case True
        have "\<forall>r \<in> set (removeAll p ps). x \<notin> TileCells env t r"
        proof
          fix r assume "r \<in> set (removeAll p ps)"
          then have "r \<in> set ps" "r \<noteq> p" by auto
          then have "TileCells env t r \<inter> TileCells env t p = {}" using v3 p(1) by blast
          then show "x \<notin> TileCells env t r" using q(2) True by auto
        qed
        then have "TiledBoard env B' (removeAll p ps) t x = B' x" by (rule TiledBoard_outside)
        also have "\<dots> = PieceIndexToCellValue p"
          using q(2) True by (simp add: B'_def PlacedBoard_def cells)
        finally show ?thesis using r True by simp
      next
        case False
        then have "q \<in> set (removeAll p ps)" using q(1) by simp
        then have "TiledBoard env B' (removeAll p ps) t x = PieceIndexToCellValue q"
          by (rule TiledBoard_inside [OF d' _ q(2)])
        then show ?thesis using r by simp
      qed
    next
      case False
      then have n: "\<forall>q \<in> set ps. x \<notin> TileCells env t q" by blast
      then have n': "\<forall>q \<in> set (removeAll p ps). x \<notin> TileCells env t q" by auto
      have "x \<notin> TileCells env t p" using n p(1) by blast
      then have "B' x = B x" by (simp add: B'_def PlacedBoard_def cells)
      then show ?thesis
        by (simp add: TiledBoard_outside [OF n] TiledBoard_outside [OF n'])
    qed
  qed
  show ?thesis
    using p(1) v1 [OF p(1)] a can valid' same unfolding o'_def B'_def by blast
qed

lemma Tilings_add_piece:
  assumes t': "ValidTiling env (PlacedBoard env B Target (p, o', a)) (removeAll p ps) t'"
    and p: "p \<in> set ps" "p < NUM_PIECES" and o: "o' < NumOrientations (SearchPieces env ! p)"
    and can: "CanPlace env B Target (p, o', a)"
  shows "\<exists>t. ValidTiling env B ps t
           \<and> TiledBoard env B ps t
              = TiledBoard env (PlacedBoard env B Target (p, o', a)) (removeAll p ps) t'"
proof -
  define B' where "B' = PlacedBoard env B Target (p, o', a)"
  define off where "off = (fst Target - fst (Orientations (SearchPieces env ! p) ! o' ! a),
        snd Target - snd (Orientations (SearchPieces env ! p) ! o' ! a))"
  define t where "t = t'(p := (o', off))"
  have cp: "TileCells env t p = PlacedCells env Target (p, o', a)"
    by (simp add: TileCells_def t_def off_def PlacedCells_OrientationCells)
  have cq: "\<And>q. q \<noteq> p \<Longrightarrow> TileCells env t q = TileCells env t' q"
    by (simp add: TileCells_def t_def)
  have E': "EmptyIn env B' = EmptyIn env B - TileCells env t p"
    unfolding B'_def cp by (rule EmptyIn_PlacedBoard [OF p(2)])
  have w1: "\<And>q. q \<in> set ps \<Longrightarrow> q \<noteq> p \<Longrightarrow> fst (t' q) < NumOrientations (SearchPieces env ! q)"
    and w2: "\<And>q. q \<in> set ps \<Longrightarrow> q \<noteq> p \<Longrightarrow> TileCells env t' q \<subseteq> EmptyIn env B'"
    and w3: "\<And>q r. q \<in> set ps \<Longrightarrow> q \<noteq> p \<Longrightarrow> r \<in> set ps \<Longrightarrow> r \<noteq> p \<Longrightarrow> q \<noteq> r \<Longrightarrow>
               TileCells env t' q \<inter> TileCells env t' r = {}"
    and w4: "EmptyIn env B' \<subseteq> (\<Union>q \<in> set (removeAll p ps). TileCells env t' q)"
    using t' by (auto simp: ValidTiling_def B'_def)
  have sub: "TileCells env t p \<subseteq> EmptyIn env B" using can by (simp add: CanPlace_EmptyIn cp)
  have valid: "ValidTiling env B ps t"
    unfolding ValidTiling_def
  proof (intro conjI ballI impI)
    fix q assume q: "q \<in> set ps"
    show "fst (t q) < NumOrientations (SearchPieces env ! q)"
      using w1 [OF q] o by (cases "q = p") (simp_all add: t_def)
    show "TileCells env t q \<subseteq> EmptyIn env B"
      using w2 [OF q] sub by (cases "q = p") (auto simp: cq E')
  next
    fix q r assume qr: "q \<in> set ps" "r \<in> set ps" "q \<noteq> r"
    show "TileCells env t q \<inter> TileCells env t r = {}"
    proof (cases "q = p")
      case True
      then have "r \<noteq> p" using qr(3) by simp
      then have "TileCells env t r \<subseteq> EmptyIn env B'" using w2 [OF qr(2)] by (simp add: cq)
      then show ?thesis using True by (auto simp: E')
    next
      case False
      note qp = this
      show ?thesis
      proof (cases "r = p")
        case True
        have "TileCells env t q \<subseteq> EmptyIn env B'" using w2 [OF qr(1) qp] by (simp add: cq qp)
        then show ?thesis using True by (auto simp: E')
      next
        case False
        then show ?thesis using w3 [OF qr(1) qp qr(2) False qr(3)] by (simp add: cq qp)
      qed
    qed
  next
    show "EmptyIn env B \<subseteq> (\<Union>q \<in> set ps. TileCells env t q)"
    proof
      fix x assume x: "x \<in> EmptyIn env B"
      show "x \<in> (\<Union>q \<in> set ps. TileCells env t q)"
      proof (cases "x \<in> TileCells env t p")
        case True
        then show ?thesis using p(1) by blast
      next
        case False
        then have "x \<in> EmptyIn env B'" using x by (simp add: E')
        then obtain q where "q \<in> set (removeAll p ps)" "x \<in> TileCells env t' q" using w4 by auto
        then have "q \<in> set ps" "x \<in> TileCells env t q" by (auto simp: cq)
        then show ?thesis by blast
      qed
    qed
  qed
  have same: "TiledBoard env B' (removeAll p ps) t' = TiledBoard env B ps t"
  proof (rule ext)
    fix x
    have v3: "\<forall>q \<in> set ps. \<forall>r \<in> set ps. q \<noteq> r \<longrightarrow> TileCells env t q \<inter> TileCells env t r = {}"
      using valid by (simp add: ValidTiling_def)
    have d': "\<forall>q \<in> set (removeAll p ps). \<forall>r \<in> set (removeAll p ps). q \<noteq> r \<longrightarrow>
                TileCells env t' q \<inter> TileCells env t' r = {}"
      using w3 by auto
    show "TiledBoard env B' (removeAll p ps) t' x = TiledBoard env B ps t x"
    proof (cases "\<exists>q \<in> set ps. x \<in> TileCells env t q")
      case True
      then obtain q where q: "q \<in> set ps" "x \<in> TileCells env t q" by blast
      have r: "TiledBoard env B ps t x = PieceIndexToCellValue q"
        by (rule TiledBoard_inside [OF v3 q])
      show ?thesis
      proof (cases "q = p")
        case True
        have "\<forall>r \<in> set (removeAll p ps). x \<notin> TileCells env t' r"
        proof
          fix r assume "r \<in> set (removeAll p ps)"
          then have r: "r \<in> set ps" "r \<noteq> p" by auto
          then have "TileCells env t r \<inter> TileCells env t p = {}" using v3 p(1) by blast
          then show "x \<notin> TileCells env t' r" using q(2) True r(2) by (auto simp: cq)
        qed
        then have "TiledBoard env B' (removeAll p ps) t' x = B' x" by (rule TiledBoard_outside)
        also have "\<dots> = PieceIndexToCellValue p"
          using q(2) True by (simp add: B'_def PlacedBoard_def cp)
        finally show ?thesis using r True by simp
      next
        case False
        then have "q \<in> set (removeAll p ps)" "x \<in> TileCells env t' q" using q by (simp_all add: cq)
        then have "TiledBoard env B' (removeAll p ps) t' x = PieceIndexToCellValue q"
          by (rule TiledBoard_inside [OF d'])
        then show ?thesis using r by simp
      qed
    next
      case False
      then have n: "\<forall>q \<in> set ps. x \<notin> TileCells env t q" by blast
      then have n': "\<forall>q \<in> set (removeAll p ps). x \<notin> TileCells env t' q" by (auto simp: cq)
      have "x \<notin> TileCells env t p" using n p(1) by blast
      then have "B' x = B x" by (simp add: B'_def PlacedBoard_def cp)
      then show ?thesis
        by (simp add: TiledBoard_outside [OF n] TiledBoard_outside [OF n'])
    qed
  qed
  show ?thesis using valid same unfolding B'_def by (intro exI [of _ t]) simp
qed

subsection \<open>The states of a run on a well-formed input\<close>

definition GoodEnv :: "solve_env \<Rightarrow> bool" where
  "GoodEnv env =
     (WellFormedTable (SearchPieces env)
      \<and> (\<forall>x \<in> set (InputBoardEmptyCells env). InExtents env x))"

text \<open>The balls that the pieces of a list have together.\<close>

definition BallsOf :: "solve_env \<Rightarrow> nat list \<Rightarrow> nat" where
  "BallsOf env ps = sum_list (map (\<lambda>p. NumBalls (SearchPieces env ! p)) ps)"

definition RemainingOf :: "search_state \<Rightarrow> nat list" where
  "RemainingOf s = RemainingPieceIdxs (RemainingPieceBitFlags s)"

text \<open>
  What holds of every state on the stack: its empty cells are cells of the list, none of
  them before the fill-cursor; there are as many as the remaining pieces have balls; and a
  piece remains.
\<close>

definition GoodState :: "solve_env \<Rightarrow> search_state \<Rightarrow> bool" where
  "GoodState env s =
     (EmptyIn env (Board s) \<subseteq> set (InputBoardEmptyCells env)
      \<and> (\<forall>i < EmptyCellIdx s. i < length (InputBoardEmptyCells env)
            \<longrightarrow> Board s (InputBoardEmptyCells env ! i) \<noteq> Empty)
      \<and> card (EmptyIn env (Board s)) = BallsOf env (RemainingOf s)
      \<and> RemainingOf s \<noteq> [])"

lemma RemainingOf_lt: "p \<in> set (RemainingOf s) \<Longrightarrow> p < NUM_PIECES"
  by (simp add: RemainingOf_def set_RemainingPieceIdxs)

lemma distinct_RemainingOf: "distinct (RemainingOf s)"
  by (simp add: RemainingOf_def distinct_RemainingPieceIdxs)

lemma WellFormedTable_nth:
  assumes "WellFormedTable Pieces" "p < NUM_PIECES"
  shows "NumOrientations (Pieces ! p) = length (Orientations (Pieces ! p))"
    and "0 < NumBalls (Pieces ! p)"
    and "o' < NumOrientations (Pieces ! p) \<Longrightarrow> length (Orientations (Pieces ! p) ! o') = NumBalls (Pieces ! p)"
    and "o' < NumOrientations (Pieces ! p) \<Longrightarrow> distinct (Orientations (Pieces ! p) ! o')"
proof -
  have m: "Pieces ! p \<in> set Pieces" using assms by (simp add: WellFormedTable_def)
  then have w: "NumOrientations (Pieces ! p) = length (Orientations (Pieces ! p))"
      "0 < NumBalls (Pieces ! p)"
      "\<forall>Balls \<in> set (Orientations (Pieces ! p)). length Balls = NumBalls (Pieces ! p) \<and> distinct Balls"
    using assms(1) by (auto simp: WellFormedTable_def list_all_iff)
  show "NumOrientations (Pieces ! p) = length (Orientations (Pieces ! p))" by (rule w(1))
  show "0 < NumBalls (Pieces ! p)" by (rule w(2))
  show "o' < NumOrientations (Pieces ! p) \<Longrightarrow> length (Orientations (Pieces ! p) ! o') = NumBalls (Pieces ! p)"
    using w(1,3) by simp
  show "o' < NumOrientations (Pieces ! p) \<Longrightarrow> distinct (Orientations (Pieces ! p) ! o')"
    using w(1,3) by simp
qed

lemma finite_EmptyIn: "GoodState env s \<Longrightarrow> finite (EmptyIn env (Board s))"
  unfolding GoodState_def by (meson finite_subset List.finite_set)

lemma FindEmptyCell_le:
  "i \<le> j \<Longrightarrow> j < length Cells \<Longrightarrow> B (Cells ! j) = Empty \<Longrightarrow> FindEmptyCell B Cells i \<le> j"
proof (induction B Cells i rule: FindEmptyCell.induct)
  case (1 B Cells i)
  show ?case
  proof (cases "i < length Cells \<and> B (Cells ! i) \<noteq> Empty")
    case True
    then have f: "FindEmptyCell B Cells i = FindEmptyCell B Cells (i + 1)"
      by (simp add: FindEmptyCell_next)
    have "i \<noteq> j" using True "1.prems"(3) by auto
    then have "i + 1 \<le> j" using "1.prems"(1) by simp
    then show ?thesis using 1 True f by simp
  next
    case False
    then have "FindEmptyCell B Cells i = i" by (rule FindEmptyCell_stop)
    then show ?thesis using "1.prems" by simp
  qed
qed

lemma BallsOf_positive:
  assumes "GoodEnv env" "ps \<noteq> []" "\<forall>p \<in> set ps. p < NUM_PIECES"
  shows "0 < BallsOf env ps"
proof -
  obtain p qs where ps: "ps = p # qs" using assms(2) by (cases ps) auto
  have "p < NUM_PIECES" using assms(3) ps by simp
  then have "0 < NumBalls (SearchPieces env ! p)"
    using assms(1) WellFormedTable_nth(2) by (simp add: GoodEnv_def)
  then show ?thesis by (simp add: BallsOf_def ps)
qed

lemma target_found:
  assumes e: "GoodEnv env" and g: "GoodState env s"
  shows "ScanFound env s" and "TargetOf env s \<in> EmptyIn env (Board s)"
proof -
  define cells where "cells = InputBoardEmptyCells env"
  have "0 < card (EmptyIn env (Board s))"
    using g BallsOf_positive [OF e, of "RemainingOf s"] RemainingOf_lt
    by (auto simp: GoodState_def)
  then have "EmptyIn env (Board s) \<noteq> {}" by auto
  then obtain x where x: "x \<in> EmptyIn env (Board s)" by auto
  then have "x \<in> set cells" using g by (auto simp: GoodState_def cells_def)
  then obtain j where j: "j < length cells" "cells ! j = x" by (auto simp: in_set_conv_nth)
  have bj: "Board s (cells ! j) = Empty" using x j by (simp add: EmptyIn_def)
  have "\<not> j < EmptyCellIdx s"
    using g j(1) bj by (auto simp: GoodState_def cells_def)
  then have "EmptyCellIdx s \<le> j" by simp
  then have le: "FindEmptyCell (Board s) cells (EmptyCellIdx s) \<le> j"
    using j(1) bj by (rule FindEmptyCell_le)
  then have lt: "FindEmptyCell (Board s) cells (EmptyCellIdx s) < length cells" using j(1) by simp
  then show found: "ScanFound env s" by (simp add: ScanFound_def cells_def)
  have t: "TargetOf env s = cells ! FindEmptyCell (Board s) cells (EmptyCellIdx s)"
    using lt by (simp add: TargetOf_def cells_def Let_def)
  have "Board s (TargetOf env s) = Empty" unfolding t using lt by (rule FindEmptyCell_found)
  moreover have "InExtents env (TargetOf env s)"
    unfolding t using e lt by (simp add: GoodEnv_def cells_def)
  ultimately show "TargetOf env s \<in> EmptyIn env (Board s)" by (simp add: EmptyIn_def)
qed

lemma card_PlacedCells:
  assumes "GoodEnv env" "p < NUM_PIECES" "o' < NumOrientations (SearchPieces env ! p)"
  shows "card (PlacedCells env Target (p, o', a)) = NumBalls (SearchPieces env ! p)"
proof -
  define Or where "Or = Orientations (SearchPieces env ! p) ! o'"
  define n where "n = NumBalls (SearchPieces env ! p)"
  have w: "WellFormedTable (SearchPieces env)" using assms(1) by (simp add: GoodEnv_def)
  have len: "length Or = n" and d: "distinct Or"
    using WellFormedTable_nth(3,4) [OF w assms(2,3)] by (simp_all add: Or_def n_def)
  have "inj_on (\<lambda>i. (fst Target - fst (Or ! a) + fst (Or ! i), snd Target - snd (Or ! a) + snd (Or ! i)))
          (set [0..<n])"
  proof (rule inj_onI)
    fix i j assume i: "i \<in> set [0..<n]" and j: "j \<in> set [0..<n]"
      and eq: "(fst Target - fst (Or ! a) + fst (Or ! i), snd Target - snd (Or ! a) + snd (Or ! i))
             = (fst Target - fst (Or ! a) + fst (Or ! j), snd Target - snd (Or ! a) + snd (Or ! j))"
    then have "Or ! i = Or ! j" by (simp add: prod_eq_iff)
    then show "i = j" using d i j len by (simp add: nth_eq_iff_index_eq)
  qed
  then have "card ((\<lambda>i. (fst Target - fst (Or ! a) + fst (Or ! i), snd Target - snd (Or ! a) + snd (Or ! i)))
          ` set [0..<n]) = card (set [0..<n])"
    by (rule card_image)
  then show ?thesis by (simp add: PlacedCells_def Let_def Or_def n_def)
qed

lemma BallsOf_removeAll:
  assumes "distinct ps" "p \<in> set ps"
  shows "BallsOf env ps = NumBalls (SearchPieces env ! p) + BallsOf env (removeAll p ps)"
  using assms
  by (simp add: BallsOf_def distinct_remove1_removeAll [symmetric] sum_list_map_remove1)

lemma RemainingOf_NewSearchState:
  "RemainingOf (NewSearchState env s Target p o' a) = removeAll p (RemainingOf s)"
  by (simp only: RemainingOf_def Flags_NewSearchState RemainingPieceIdxs_clear)

subsection \<open>The children of a state\<close>

lemma Children_iff:
  "c \<in> set (Children env s Target) \<longleftrightarrow>
     (\<exists>p o' a. p \<in> set (RemainingOf s) \<and> o' < NumOrientations (SearchPieces env ! p)
        \<and> a < NumBalls (SearchPieces env ! p)
        \<and> CanPlace env (Board s) Target (p, o', a)
        \<and> c = NewSearchState env s Target p o' a)"
proof
  assume "c \<in> set (Children env s Target)"
  then obtain x where x: "x \<in> set (Attempts env (RemainingPieceBitFlags s))"
    and can: "CanPlace env (Board s) Target x"
    and c: "c = (case x of (p, o', a) \<Rightarrow> NewSearchState env s Target p o' a)"
    by (auto simp: Children_def)
  obtain p o' a where e: "x = (p, o', a)" by (cases x)
  show "\<exists>p o' a. p \<in> set (RemainingOf s) \<and> o' < NumOrientations (SearchPieces env ! p)
        \<and> a < NumBalls (SearchPieces env ! p)
        \<and> CanPlace env (Board s) Target (p, o', a)
        \<and> c = NewSearchState env s Target p o' a"
    using x can c unfolding e Attempts_piece RemainingOf_def
    by (intro exI [of _ p] exI [of _ o'] exI [of _ a]) simp
next
  assume "\<exists>p o' a. p \<in> set (RemainingOf s) \<and> o' < NumOrientations (SearchPieces env ! p)
        \<and> a < NumBalls (SearchPieces env ! p)
        \<and> CanPlace env (Board s) Target (p, o', a)
        \<and> c = NewSearchState env s Target p o' a"
  then obtain p o' a where "(p, o', a) \<in> set (Attempts env (RemainingPieceBitFlags s))"
    and "CanPlace env (Board s) Target (p, o', a)"
    and "c = (case (p, o', a) of (p, o', a) \<Rightarrow> NewSearchState env s Target p o' a)"
    unfolding Attempts_piece RemainingOf_def by auto
  then show "c \<in> set (Children env s Target)"
    unfolding Children_def set_map set_filter by blast
qed

lemma child_good:
  assumes e: "GoodEnv env" and g: "GoodState env s"
    and p: "p \<in> set (RemainingOf s)" and o: "o' < NumOrientations (SearchPieces env ! p)"
    and a: "a < NumBalls (SearchPieces env ! p)"
    and can: "CanPlace env (Board s) (TargetOf env s) (p, o', a)"
  shows "EmptyIn env (Board (NewSearchState env s (TargetOf env s) p o' a))
           \<subseteq> set (InputBoardEmptyCells env)"
    and "\<forall>i < EmptyCellIdx (NewSearchState env s (TargetOf env s) p o' a).
           i < length (InputBoardEmptyCells env)
           \<longrightarrow> Board (NewSearchState env s (TargetOf env s) p o' a) (InputBoardEmptyCells env ! i) \<noteq> Empty"
    and "card (EmptyIn env (Board (NewSearchState env s (TargetOf env s) p o' a)))
         = BallsOf env (RemainingOf (NewSearchState env s (TargetOf env s) p o' a))"
    and "length (RemainingOf s) \<noteq> 1 \<Longrightarrow> RemainingOf (NewSearchState env s (TargetOf env s) p o' a) \<noteq> []"
    and "length (RemainingOf s) = 1 \<Longrightarrow> RemainingOf (NewSearchState env s (TargetOf env s) p o' a) = []"
proof -
  define T where "T = TargetOf env s"
  define c where "c = NewSearchState env s T p o' a"
  define cells where "cells = InputBoardEmptyCells env"
  define C where "C = PlacedCells env T (p, o', a)"
  have plt: "p < NUM_PIECES" using p by (rule RemainingOf_lt)
  have nE: "PieceIndexToCellValue p \<noteq> Empty" using plt by (rule PieceIndexToCellValue_not_Empty)
  have B: "Board c = PlacedBoard env (Board s) T (p, o', a)"
    by (simp add: c_def Board_NewSearchState_PlacedBoard)
  have E: "EmptyIn env (Board c) = EmptyIn env (Board s) - C"
    unfolding B C_def using plt by (rule EmptyIn_PlacedBoard)
  have sub: "C \<subseteq> EmptyIn env (Board s)"
    using can by (simp add: CanPlace_EmptyIn C_def T_def)
  have fin: "finite (EmptyIn env (Board s))" using g by (rule finite_EmptyIn)
  have keep: "\<And>x. Board s x \<noteq> Empty \<Longrightarrow> Board c x \<noteq> Empty"
    using nE by (simp add: B PlacedBoard_def)
  have TC: "T \<in> C" unfolding C_def using a by (rule Target_in_PlacedCells)
  have BT: "Board c T \<noteq> Empty" using TC nE by (simp add: B PlacedBoard_def C_def)
  show "EmptyIn env (Board (NewSearchState env s (TargetOf env s) p o' a))
           \<subseteq> set (InputBoardEmptyCells env)"
    using g E by (auto simp: GoodState_def c_def T_def)
  have found: "ScanFound env s" using e g by (rule target_found(1))
  define idx where "idx = FindEmptyCell (Board s) cells (EmptyCellIdx s)"
  have idx: "idx < length cells" using found by (simp add: ScanFound_def idx_def cells_def)
  have Tidx: "T = cells ! idx"
    using idx by (simp add: T_def TargetOf_def Let_def idx_def cells_def)
  have cur: "\<forall>i < EmptyCellIdx c. i < length cells \<longrightarrow> Board c (cells ! i) \<noteq> Empty"
  proof (intro allI impI)
    fix i assume i: "i < EmptyCellIdx c" and il: "i < length cells"
    have "EmptyCellIdx c = (EmptyCellIdx s + 1) mod 256"
      by (simp add: c_def EmptyCellIdx_NewSearchState)
    then have "EmptyCellIdx c \<le> EmptyCellIdx s + 1" by simp
    then have ile: "i \<le> EmptyCellIdx s" using i by simp
    show "Board c (cells ! i) \<noteq> Empty"
    proof (cases "i < EmptyCellIdx s")
      case True
      then have "Board s (cells ! i) \<noteq> Empty" using g il by (simp add: GoodState_def cells_def)
      then show ?thesis by (rule keep)
    next
      case False
      then have ieq: "i = EmptyCellIdx s" using ile by simp
      show ?thesis
      proof (cases "idx = i")
        case True
        then show ?thesis using BT Tidx by simp
      next
        case False
        have "EmptyCellIdx s \<le> idx" unfolding idx_def by (rule FindEmptyCell_ge)
        then have "i < idx" using False ieq by simp
        then have "i < FindEmptyCell (Board s) cells (EmptyCellIdx s)" by (simp add: idx_def)
        with ieq il have "Board s (cells ! i) \<noteq> Empty"
          using FindEmptyCell_skipped [of "EmptyCellIdx s" i "Board s" cells] by simp
        then show ?thesis by (rule keep)
      qed
    qed
  qed
  then show "\<forall>i < EmptyCellIdx (NewSearchState env s (TargetOf env s) p o' a).
           i < length (InputBoardEmptyCells env)
           \<longrightarrow> Board (NewSearchState env s (TargetOf env s) p o' a) (InputBoardEmptyCells env ! i) \<noteq> Empty"
    by (simp add: c_def T_def cells_def)
  have R: "RemainingOf c = removeAll p (RemainingOf s)"
    by (simp add: c_def RemainingOf_NewSearchState)
  have cardC: "card C = NumBalls (SearchPieces env ! p)"
    unfolding C_def using e plt o by (rule card_PlacedCells)
  have "card (EmptyIn env (Board c)) = card (EmptyIn env (Board s)) - card C"
    unfolding E using sub fin by (simp add: card_Diff_subset finite_subset)
  also have "\<dots> = BallsOf env (RemainingOf s) - NumBalls (SearchPieces env ! p)"
    using g cardC by (simp add: GoodState_def)
  also have "\<dots> = BallsOf env (removeAll p (RemainingOf s))"
    using BallsOf_removeAll [OF distinct_RemainingOf p, of env] by simp
  finally have "card (EmptyIn env (Board c)) = BallsOf env (RemainingOf c)" by (simp add: R)
  then show "card (EmptyIn env (Board (NewSearchState env s (TargetOf env s) p o' a)))
         = BallsOf env (RemainingOf (NewSearchState env s (TargetOf env s) p o' a))"
    by (simp add: c_def T_def)
  have len: "length (RemainingOf s) = Suc (length (removeAll p (RemainingOf s)))"
    using p distinct_RemainingOf [of s]
    by (simp add: distinct_remove1_removeAll [symmetric] length_remove1)
       (metis One_nat_def Suc_pred length_pos_if_in_set)
  show "length (RemainingOf s) \<noteq> 1 \<Longrightarrow> RemainingOf (NewSearchState env s (TargetOf env s) p o' a) \<noteq> []"
    using len R by (auto simp: c_def T_def)
  show "length (RemainingOf s) = 1 \<Longrightarrow> RemainingOf (NewSearchState env s (TargetOf env s) p o' a) = []"
    using len R by (auto simp: c_def T_def)
qed

lemma Children_good:
  assumes "GoodEnv env" "GoodState env s" "length (RemainingOf s) \<noteq> 1"
    and "c \<in> set (Children env s (TargetOf env s))"
  shows "GoodState env c"
proof -
  obtain p o' a where x: "p \<in> set (RemainingOf s)" "o' < NumOrientations (SearchPieces env ! p)"
      "a < NumBalls (SearchPieces env ! p)" "CanPlace env (Board s) (TargetOf env s) (p, o', a)"
    and c: "c = NewSearchState env s (TargetOf env s) p o' a"
    using assms(4) unfolding Children_iff by blast
  show ?thesis
    unfolding GoodState_def c
    using child_good(1,2,3) [OF assms(1,2) x] child_good(4) [OF assms(1,2) x assms(3)]
    by blast
qed

lemma Tilings_Nil:
  "Tilings env B [] = (if EmptyIn env B = {} then {B} else {})"
  by (auto simp: Tilings_def ValidTiling_def TiledBoard_def)

lemma Children_last:
  assumes "GoodEnv env" "GoodState env s" "length (RemainingOf s) = 1"
    and "c \<in> set (Children env s (TargetOf env s))"
  shows "Tilings env (Board c) (RemainingOf c) = {Board c}"
proof -
  obtain p o' a where x: "p \<in> set (RemainingOf s)" "o' < NumOrientations (SearchPieces env ! p)"
      "a < NumBalls (SearchPieces env ! p)" "CanPlace env (Board s) (TargetOf env s) (p, o', a)"
    and c: "c = NewSearchState env s (TargetOf env s) p o' a"
    using assms(4) unfolding Children_iff by blast
  have r: "RemainingOf c = []" unfolding c by (rule child_good(5) [OF assms(1,2) x assms(3)])
  have "card (EmptyIn env (Board c)) = 0"
    using child_good(3) [OF assms(1,2) x] r by (simp add: c BallsOf_def)
  moreover have "finite (EmptyIn env (Board c))"
    using child_good(1) [OF assms(1,2) x] unfolding c by (meson finite_subset List.finite_set)
  ultimately have "EmptyIn env (Board c) = {}" by simp
  then show ?thesis by (simp add: r Tilings_Nil)
qed

text \<open>The tilings of a state are the tilings of its children.\<close>

lemma Tilings_Children:
  assumes e: "GoodEnv env" and g: "GoodState env s"
  shows "Tilings env (Board s) (RemainingOf s)
         = (\<Union>c \<in> set (Children env s (TargetOf env s)). Tilings env (Board c) (RemainingOf c))"
proof (intro set_eqI iffI)
  fix b assume "b \<in> Tilings env (Board s) (RemainingOf s)"
  then obtain t where t: "ValidTiling env (Board s) (RemainingOf s) t"
    and b: "b = TiledBoard env (Board s) (RemainingOf s) t"
    by (auto simp: Tilings_def)
  have T: "TargetOf env s \<in> EmptyIn env (Board s)" using e g by (rule target_found(2))
  have lt: "\<forall>p \<in> set (RemainingOf s). p < NUM_PIECES" using RemainingOf_lt by blast
  obtain p o' a where p: "p \<in> set (RemainingOf s)"
    and o: "o' < NumOrientations (SearchPieces env ! p)"
    and a: "a < NumBalls (SearchPieces env ! p)"
    and can: "CanPlace env (Board s) (TargetOf env s) (p, o', a)"
    and v: "ValidTiling env (PlacedBoard env (Board s) (TargetOf env s) (p, o', a))
              (removeAll p (RemainingOf s)) t"
    and tb: "TiledBoard env (PlacedBoard env (Board s) (TargetOf env s) (p, o', a))
              (removeAll p (RemainingOf s)) t = TiledBoard env (Board s) (RemainingOf s) t"
    using Tilings_first_piece [OF t T lt] by blast
  define c where "c = NewSearchState env s (TargetOf env s) p o' a"
  have cin: "c \<in> set (Children env s (TargetOf env s))"
    unfolding Children_iff c_def using p o a can by blast
  have B: "Board c = PlacedBoard env (Board s) (TargetOf env s) (p, o', a)"
    by (simp add: c_def Board_NewSearchState_PlacedBoard)
  have R: "RemainingOf c = removeAll p (RemainingOf s)"
    by (simp add: c_def RemainingOf_NewSearchState)
  have "b = TiledBoard env (PlacedBoard env (Board s) (TargetOf env s) (p, o', a))
              (removeAll p (RemainingOf s)) t" using tb b by simp
  then have "b \<in> Tilings env (Board c) (RemainingOf c)"
    unfolding Tilings_def B R using v by blast
  then show "b \<in> (\<Union>c \<in> set (Children env s (TargetOf env s)). Tilings env (Board c) (RemainingOf c))"
    using cin by blast
next
  fix b assume "b \<in> (\<Union>c \<in> set (Children env s (TargetOf env s)). Tilings env (Board c) (RemainingOf c))"
  then obtain c where cin: "c \<in> set (Children env s (TargetOf env s))"
    and bc: "b \<in> Tilings env (Board c) (RemainingOf c)" by blast
  obtain p o' a where p: "p \<in> set (RemainingOf s)"
    and o: "o' < NumOrientations (SearchPieces env ! p)"
    and a: "a < NumBalls (SearchPieces env ! p)"
    and can: "CanPlace env (Board s) (TargetOf env s) (p, o', a)"
    and c: "c = NewSearchState env s (TargetOf env s) p o' a"
    using cin unfolding Children_iff by blast
  have B: "Board c = PlacedBoard env (Board s) (TargetOf env s) (p, o', a)"
    by (simp add: c Board_NewSearchState_PlacedBoard)
  have R: "RemainingOf c = removeAll p (RemainingOf s)"
    by (simp add: c RemainingOf_NewSearchState)
  obtain t' where t': "ValidTiling env (PlacedBoard env (Board s) (TargetOf env s) (p, o', a))
                         (removeAll p (RemainingOf s)) t'"
    and b: "b = TiledBoard env (PlacedBoard env (Board s) (TargetOf env s) (p, o', a))
                  (removeAll p (RemainingOf s)) t'"
    using bc unfolding Tilings_def B R by auto
  have plt: "p < NUM_PIECES" using p by (rule RemainingOf_lt)
  obtain t where vt: "ValidTiling env (Board s) (RemainingOf s) t"
    and eq: "TiledBoard env (Board s) (RemainingOf s) t
         = TiledBoard env (PlacedBoard env (Board s) (TargetOf env s) (p, o', a))
             (removeAll p (RemainingOf s)) t'"
    using Tilings_add_piece [OF t' p plt o can] by blast
  have "b = TiledBoard env (Board s) (RemainingOf s) t" by (simp add: b eq)
  then show "b \<in> Tilings env (Board s) (RemainingOf s)"
    unfolding Tilings_def using vt by blast
qed

subsection \<open>What the loop returns from a stack of such states\<close>

definition StackTilings :: "solve_env \<Rightarrow> search_state list \<Rightarrow> board set" where
  "StackTilings env ss = (\<Union>s \<in> set ss. Tilings env (Board s) (RemainingOf s))"

lemma StackTilings_append:
  "StackTilings env (xs @ ys) = StackTilings env xs \<union> StackTilings env ys"
  by (auto simp: StackTilings_def)

lemma SolveStep_good:
  assumes e: "GoodEnv env" and ne: "SearchStates st \<noteq> []"
    and g: "\<forall>s \<in> set (SearchStates st). GoodState env s"
  shows "\<exists>st1. SolveStep env st = Inr st1
           \<and> (\<forall>s \<in> set (SearchStates st1). GoodState env s)
           \<and> set (OutSolutions st1) \<union> StackTilings env (SearchStates st1)
             = set (OutSolutions st) \<union> StackTilings env (SearchStates st)"
proof -
  define top where "top = last (SearchStates st)"
  define T where "T = TargetOf env top"
  define st0 where "st0 = st\<lparr>OutNumBoardStatesTested :=
                        (if WITH_STATS (Fast env) then OutNumBoardStatesTested st + 1
                         else OutNumBoardStatesTested st),
                      SearchStates := butlast (SearchStates st)\<rparr>"
  define st1 where "st1 = TryPieces env top T st0"
  have stack: "SearchStates st = butlast (SearchStates st) @ [top]"
    using ne by (simp add: top_def)
  have "top \<in> set (SearchStates st)" using ne by (simp add: top_def)
  then have gt: "GoodState env top" using g by blast
  have found: "ScanFound env top" using e gt by (rule target_found(1))
  have step: "SolveStep env st = Inr st1"
    using found by (simp add: SolveStep_eq st1_def st0_def top_def T_def)
  have ss: "SearchStates st1 = butlast (SearchStates st)
              @ (if length (RemainingOf top) = 1 then [] else Children env top T)"
    by (simp add: st1_def TryPieces_SearchStates st0_def RemainingOf_def)
  have out: "OutSolutions st1 = OutSolutions st
              @ (if length (RemainingOf top) = 1 then map Board (Children env top T) else [])"
    by (simp add: st1_def TryPieces_OutSolutions st0_def RemainingOf_def)
  have gb: "\<forall>s \<in> set (butlast (SearchStates st)). GoodState env s"
    using g by (meson in_set_butlastD)
  have good: "\<forall>s \<in> set (SearchStates st1). GoodState env s"
  proof (cases "length (RemainingOf top) = 1")
    case True
    then show ?thesis using gb by (simp add: ss)
  next
    case False
    then show ?thesis using gb Children_good [OF e gt False] by (auto simp: ss T_def)
  qed
  have dec: "Tilings env (Board top) (RemainingOf top) = StackTilings env (Children env top T)"
    unfolding StackTilings_def T_def using e gt by (rule Tilings_Children)
  have st: "StackTilings env (SearchStates st)
            = StackTilings env (butlast (SearchStates st)) \<union> StackTilings env (Children env top T)"
  proof -
    have "StackTilings env (SearchStates st)
            = StackTilings env (butlast (SearchStates st) @ [top])" using stack by simp
    also have "\<dots> = StackTilings env (butlast (SearchStates st))
                      \<union> Tilings env (Board top) (RemainingOf top)"
      unfolding StackTilings_append by (simp add: StackTilings_def)
    finally show ?thesis by (simp add: dec)
  qed
  have eq: "set (OutSolutions st1) \<union> StackTilings env (SearchStates st1)
             = set (OutSolutions st) \<union> StackTilings env (SearchStates st)"
  proof (cases "length (RemainingOf top) = 1")
    case True
    have "StackTilings env (Children env top T) = Board ` set (Children env top T)"
      unfolding StackTilings_def T_def using Children_last [OF e gt True] by auto
    then show ?thesis using True by (auto simp: ss out st)
  next
    case False
    then show ?thesis by (auto simp: ss out st StackTilings_append)
  qed
  show ?thesis using step good eq by blast
qed

lemma SolveLoop_tilings:
  "GoodEnv env \<Longrightarrow> (\<forall>s \<in> set (SearchStates st). GoodState env s) \<Longrightarrow>
   \<exists>st'. SolveLoop env st = Inr st' \<and> SearchStates st' = []
         \<and> set (OutSolutions st') = set (OutSolutions st) \<union> StackTilings env (SearchStates st)"
proof (induction env st rule: SolveLoop.induct)
  case (1 env st)
  show ?case
  proof (cases "SearchStates st = []")
    case True
    then show ?thesis by (simp add: SolveLoop.simps [of env st] StackTilings_def)
  next
    case False
    obtain st1 where step: "SolveStep env st = Inr st1"
      and good: "\<forall>s \<in> set (SearchStates st1). GoodState env s"
      and eq: "set (OutSolutions st1) \<union> StackTilings env (SearchStates st1)
             = set (OutSolutions st) \<union> StackTilings env (SearchStates st)"
      using SolveStep_good [OF "1.prems"(1) False "1.prems"(2)] by blast
    obtain st' where l: "SolveLoop env st1 = Inr st'" and s: "SearchStates st' = []"
      and o: "set (OutSolutions st') = set (OutSolutions st1) \<union> StackTilings env (SearchStates st1)"
      using "1.IH" [OF False step "1.prems"(1) good] by blast
    have "SolveLoop env st = Inr st'"
      using False step l by (simp add: SolveLoop.simps [of env st])
    then show ?thesis using s o eq by simp
  qed
qed

subsection \<open>The initial state\<close>

lemma fold_unchanged: "(\<And>x. x \<in> set xs \<Longrightarrow> F x acc = acc) \<Longrightarrow> fold F xs acc = acc"
  by (induction xs) simp_all

lemma all_flags: "RemainingPieceIdxs (fold (\<lambda>PieceIdx Flags. Flags OR push_bit PieceIdx 1) [0..<NUM_PIECES] 0)
                  = [0..<NUM_PIECES]"
  by code_simp

lemma InitialFlags_no_pieces:
  assumes "list_all (\<lambda>x. \<not> IsPiece (InputBoard x)) (List.product [0..NumRows' - 1] [0..NumCols' - 1])"
  shows "RemainingPieceIdxs (InitialFlags InputBoard NumRows' NumCols') = [0..<NUM_PIECES]"
proof -
  define F where "F = (\<lambda>(RowIdx :: int, ColIdx :: int) (Flags :: 12 word).
             let CellValue = InputBoard (RowIdx, ColIdx)
             in if IsPiece CellValue
                then Flags AND NOT (push_bit (CellValueToPieceIndex CellValue) 1)
                else Flags)"
  define all where "all = fold (\<lambda>PieceIdx (Flags :: 12 word). Flags OR push_bit PieceIdx 1) [0..<NUM_PIECES] 0"
  have "\<And>x. x \<in> set (List.product [0..NumRows' - 1] [0..NumCols' - 1]) \<Longrightarrow> F x all = all"
    using assms by (auto simp: F_def list_all_iff Let_def)
  then have "fold F (List.product [0..NumRows' - 1] [0..NumCols' - 1]) all = all"
    by (rule fold_unchanged)
  then have "InitialFlags InputBoard NumRows' NumCols' = all"
    by (simp add: InitialFlags_def F_def all_def)
  then show ?thesis unfolding all_def by (simp only: all_flags)
qed

lemma distinct_EmptyCellsOf: "distinct (EmptyCellsOf B)"
  by (simp add: EmptyCellsOf_def board_cells_def distinct_product)

lemma EmptyIn_subset_cells:
  assumes "NumRows env \<le> MAX_BOARD_SIZE" "NumCols env \<le> MAX_BOARD_SIZE"
  shows "EmptyIn env B \<subseteq> set (EmptyCellsOf B)"
proof
  fix x assume "x \<in> EmptyIn env B"
  then have i: "InExtents env x" and e: "B x = Empty" by (simp_all add: EmptyIn_def)
  have "NumRows env \<le> 16" "NumCols env \<le> 16"
    using assms by (simp_all add: MAX_BOARD_SIZE_def)
  then show "x \<in> set (EmptyCellsOf B)"
    using i e by (cases x) (auto simp: set_EmptyCellsOf InExtents_def)
qed

lemma InExtents_SolveEnv:
  "InExtents (SolveEnv fast Indet Pieces InputBoard NumRows' NumCols')
   = (\<lambda>(r, c). 0 \<le> r \<and> r < NumRows' \<and> 0 \<le> c \<and> c < NumCols')"
  by (simp add: InExtents_def SolveEnv_def)

lemma sum_list_bounded:
  "(\<And>x. x \<in> set xs \<Longrightarrow> f x \<le> (c :: nat)) \<Longrightarrow> sum_list (map f xs) \<le> length xs * c"
  by (induction xs) (simp_all add: add_mono)

text \<open>The balls of a table fit the array of empty cells.\<close>

lemma WellFormedTable_balls:
  assumes "WellFormedTable Pieces"
  shows "sum_list (map NumBalls Pieces) \<le> NUM_VALID_CELLS"
proof -
  have "\<And>Piece. Piece \<in> set Pieces \<Longrightarrow> NumBalls Piece \<le> MAX_BALLS"
    using assms by (simp add: WellFormedTable_def list_all_iff)
  then have "sum_list (map NumBalls Pieces) \<le> length Pieces * MAX_BALLS"
    by (rule sum_list_bounded)
  also have "\<dots> = NUM_PIECES * MAX_BALLS" using assms by (simp add: WellFormedTable_def)
  also have "\<dots> \<le> NUM_VALID_CELLS"
    by (simp add: NUM_PIECES_def MAX_BALLS_def NUM_VALID_CELLS_def)
  finally show ?thesis .
qed

lemma BallsOf_all:
  "length (SearchPieces env) = NUM_PIECES \<Longrightarrow>
   BallsOf env [0..<NUM_PIECES] = sum_list (map NumBalls (SearchPieces env))"
proof -
  assume l: "length (SearchPieces env) = NUM_PIECES"
  have "map (\<lambda>p. NumBalls (SearchPieces env ! p)) [0..<length (SearchPieces env)]
        = map NumBalls (SearchPieces env)"
    by (rule nth_equalityI) simp_all
  then show ?thesis by (simp add: BallsOf_def l)
qed

text \<open>
  The call of \<open>Solve\<close> on a board within the grid whose cells outside the logical extents
  are \<open>Invalid\<close>, with as many \<open>Empty\<close> cells as the pieces that setup leaves in the
  remaining set have balls, at least one piece remaining.
\<close>

lemma Solve_tilings_remaining:
  fixes Pieces :: "search_piece list" and fast :: bool and Indet :: "int \<times> int"
    and InputBoard :: board and NumRows' NumCols' :: int
  defines "env \<equiv> SolveEnv fast Indet Pieces InputBoard NumRows' NumCols'"
  defines "rs \<equiv> RemainingPieceIdxs (InitialFlags InputBoard NumRows' NumCols')"
  assumes wf: "WellFormedTable Pieces"
    and ext: "NumRows' \<le> MAX_BOARD_SIZE" "NumCols' \<le> MAX_BOARD_SIZE"
    and inv: "list_all (\<lambda>x. InExtents env x \<or> InputBoard x = Invalid) board_cells"
    and cnt: "length (EmptyCellsOf InputBoard) = BallsOf env rs"
    and ne: "rs \<noteq> []"
    and cap: "length (EmptyCellsOf InputBoard) \<le> NUM_VALID_CELLS"
  shows "\<exists>st'. Solve fast Indet Pieces InputBoard NumRows' NumCols' N1 N2 N3 = Inr st'
           \<and> SearchStates st' = []
           \<and> set (OutSolutions st') = Tilings env InputBoard rs"
proof -
  define s0 where "s0 = InitialSearchState InputBoard NumRows' NumCols'"
  define st where "st = SolveStart fast InputBoard NumRows' NumCols' N1 N2 N3"
  have cells: "InputBoardEmptyCells env = EmptyCellsOf InputBoard"
    and sp: "SearchPieces env = Pieces"
    by (simp_all add: env_def SolveEnv_def)
  have R: "RemainingOf s0 = rs" by (simp add: RemainingOf_def s0_def InitialSearchState_def rs_def)
  have B: "Board s0 = InputBoard" by (simp add: s0_def InitialSearchState_def)
  have inx: "\<And>x. x \<in> set (EmptyCellsOf InputBoard) \<Longrightarrow> InExtents env x"
  proof -
    fix x assume x: "x \<in> set (EmptyCellsOf InputBoard)"
    then have "x \<in> set board_cells" "InputBoard x = Empty"
      by (auto simp: EmptyCellsOf_def)
    then show "InExtents env x"
      using inv by (auto simp: list_all_iff Empty_def Invalid_def)
  qed
  have E: "EmptyIn env InputBoard = set (EmptyCellsOf InputBoard)"
  proof (intro set_eqI iffI)
    fix x assume "x \<in> EmptyIn env InputBoard"
    then have i: "InExtents env x" and e: "InputBoard x = Empty" by (simp_all add: EmptyIn_def)
    have "NumRows env \<le> 16" "NumCols env \<le> 16"
      using ext by (simp_all add: env_def SolveEnv_def MAX_BOARD_SIZE_def)
    then show "x \<in> set (EmptyCellsOf InputBoard)"
      using i e by (cases x) (auto simp: set_EmptyCellsOf InExtents_def)
  next
    fix x assume x: "x \<in> set (EmptyCellsOf InputBoard)"
    then have "InputBoard x = Empty" by (auto simp: EmptyCellsOf_def)
    then show "x \<in> EmptyIn env InputBoard" using inx [OF x] by (simp add: EmptyIn_def)
  qed
  have e: "GoodEnv env"
    using wf inx by (simp add: GoodEnv_def sp cells)
  have "card (EmptyIn env InputBoard) = length (EmptyCellsOf InputBoard)"
    unfolding E using distinct_EmptyCellsOf by (rule distinct_card)
  then have g: "GoodState env s0"
    using cnt ne by (simp add: GoodState_def B R E cells) (simp add: s0_def InitialSearchState_def)
  have ss: "SearchStates st = [s0]" and out: "OutSolutions st = []"
    by (simp_all add: st_def SolveStart_def s0_def)
  have "\<forall>s \<in> set (SearchStates st). GoodState env s" using g by (simp add: ss)
  then obtain st' where l: "SolveLoop env st = Inr st'" and em: "SearchStates st' = []"
    and o: "set (OutSolutions st') = set (OutSolutions st) \<union> StackTilings env (SearchStates st)"
    using SolveLoop_tilings [OF e] by blast
  have "set (OutSolutions st') = Tilings env InputBoard rs"
    using o by (simp add: ss out StackTilings_def B R)
  moreover have "Solve fast Indet Pieces InputBoard NumRows' NumCols' N1 N2 N3 = Inr st'"
    using l by (simp add: Solve_within [OF cap] env_def st_def)
  ultimately show ?thesis using em by blast
qed

text \<open>No board of a set of tilings has an \<open>Empty\<close> cell in the logical extents.\<close>

lemma Tilings_no_Empty:
  assumes "b \<in> Tilings env B ps" "\<forall>p \<in> set ps. p < NUM_PIECES"
  shows "EmptyIn env b = {}"
proof -
  obtain t where t: "ValidTiling env B ps t" and b: "b = TiledBoard env B ps t"
    using assms(1) by (auto simp: Tilings_def)
  have dis: "\<forall>p \<in> set ps. \<forall>q \<in> set ps. p \<noteq> q \<longrightarrow> TileCells env t p \<inter> TileCells env t q = {}"
    and cov: "EmptyIn env B \<subseteq> (\<Union>p \<in> set ps. TileCells env t p)"
    using t by (simp_all add: ValidTiling_def)
  have "\<And>x. x \<in> EmptyIn env b \<Longrightarrow> False"
  proof -
    fix x assume x: "x \<in> EmptyIn env b"
    then have i: "InExtents env x" and e: "b x = Empty" by (simp_all add: EmptyIn_def)
    show False
    proof (cases "\<exists>p \<in> set ps. x \<in> TileCells env t p")
      case True
      then obtain p where p: "p \<in> set ps" "x \<in> TileCells env t p" by blast
      have "b x = PieceIndexToCellValue p" unfolding b by (rule TiledBoard_inside [OF dis p])
      moreover have "PieceIndexToCellValue p \<noteq> Empty"
        using assms(2) p(1) by (simp add: PieceIndexToCellValue_not_Empty)
      ultimately show False using e by simp
    next
      case False
      then have "b x = B x" unfolding b by (simp add: TiledBoard_outside)
      then have "x \<in> EmptyIn env B" using i e by (simp add: EmptyIn_def)
      then show False using cov False by blast
    qed
  qed
  then show ?thesis by blast
qed

text \<open>\<open>Initialize\<close> builds such a table from pieces of 1 to \<open>MAX_BALLS\<close> balls.\<close>

lemma Initialize_WellFormedTable:
  assumes "list_all (\<lambda>q. 0 < card (occupied (Pieces ! q)) \<and> card (occupied (Pieces ! q)) \<le> MAX_BALLS)
             [0..<NUM_PIECES]"
  shows "WellFormedTable (Initialize Pieces)"
proof -
  have "\<And>Piece. Piece \<in> set (Initialize Pieces) \<Longrightarrow>
          NumOrientations Piece = length (Orientations Piece)
          \<and> 0 < NumBalls Piece \<and> NumBalls Piece \<le> MAX_BALLS
          \<and> list_all (\<lambda>Balls. length Balls = NumBalls Piece \<and> distinct Balls) (Orientations Piece)"
  proof -
    fix Piece assume "Piece \<in> set (Initialize Pieces)"
    then obtain p where p: "p < NUM_PIECES" and P: "Piece = Initialize Pieces ! p"
      by (auto simp: in_set_conv_nth length_Initialize)
    have c: "0 < card (occupied (Pieces ! p))" "card (occupied (Pieces ! p)) \<le> MAX_BALLS"
      using assms p by (simp_all add: list_all_iff)
    note I = Initialize_NumBalls [OF p, of Pieces]
    show "NumOrientations Piece = length (Orientations Piece)
          \<and> 0 < NumBalls Piece \<and> NumBalls Piece \<le> MAX_BALLS
          \<and> list_all (\<lambda>Balls. length Balls = NumBalls Piece \<and> distinct Balls) (Orientations Piece)"
      unfolding P using I c by (simp add: list_all_iff)
  qed
  then show ?thesis by (simp add: WellFormedTable_def length_Initialize list_all_iff)
qed

section \<open>The claims\<close>

text \<open>
  C8. Normalisation is idempotent: a piece definition that has a ball, whose first occupied
  row and first occupied column are both 0, is left unchanged by \<open>PushUpAndLeft\<close>; and
  for every piece definition, applying \<open>PushUpAndLeft\<close> twice gives what applying it once
  gives.
\<close>

theorem PushUpAndLeft_idempotent:
  "(occupied d \<noteq> {} \<and> Min (fst ` occupied d) = 0 \<and> Min (snd ` occupied d) = 0
      \<longrightarrow> PushUpAndLeft d = d)
   \<and> PushUpAndLeft (PushUpAndLeft d) = PushUpAndLeft d"
proof (intro conjI impI)
  assume a: "occupied d \<noteq> {} \<and> Min (fst ` occupied d) = 0 \<and> Min (snd ` occupied d) = 0"
  have ne: "fst ` occupied d \<noteq> {}" "snd ` occupied d \<noteq> {}" using a by auto
  have fin: "finite (fst ` occupied d)" "finite (snd ` occupied d)" by (simp_all add: finite_occupied)
  have "0 \<in> fst ` occupied d" using Min_in [OF fin(1) ne(1)] a by simp
  moreover have "0 \<in> snd ` occupied d" using Min_in [OF fin(2) ne(2)] a by simp
  ultimately obtain c0 r0 where "(0, c0) \<in> occupied d" "(r0, 0) \<in> occupied d" by force
  then have "FindMin d = (0, 0)" by (rule FindMin_zero)
  then show "PushUpAndLeft d = d" by (rule PushUpAndLeft_fixed)
next
  show "PushUpAndLeft (PushUpAndLeft d) = PushUpAndLeft d" by (rule PushUpAndLeft_idem)
qed

theorem PushUpAndLeft_idempotent_witness:
  "occupied (\<lambda>x. if x = (0, 0) then 1 else 0) \<noteq> {}
   \<and> Min (fst ` occupied (\<lambda>x. if x = (0, 0) then 1 else 0)) = 0
   \<and> Min (snd ` occupied (\<lambda>x. if x = (0, 0) then 1 else 0)) = 0
   \<and> PushUpAndLeft (\<lambda>x. if x = (0, 0) then 1 else 0) = (\<lambda>x. if x = (0, 0) then 1 else 0)
   \<and> PushUpAndLeft (PushUpAndLeft (\<lambda>x. if x = (0, 0) then 1 else 0))
       = PushUpAndLeft (\<lambda>x. if x = (0, 0) then 1 else 0)"
proof -
  have o: "occupied (\<lambda>x. if x = (0, 0) then 1 else 0) = {(0, 0)}"
    by (auto simp: occupied_def set_piece_cells)
  show ?thesis
    using PushUpAndLeft_idempotent [of "\<lambda>x. if x = (0, 0) then 1 else 0"] by (simp add: o)
qed

text \<open>
  C7. For a piece whose cells are 0 or 1 (and a piece array within the ball capacity), the
  orientations that \<open>Initialize\<close> stores are the ball lists of the eight normalised variants
  in generation order with every repetition of an earlier one removed; so there is exactly
  one when all eight variants coincide, and exactly eight when no two coincide.
\<close>

theorem Initialize_unique_orientations:
  assumes "p < NUM_PIECES" and "Cells01 (Pieces ! p)" and "PiecesFit Pieces"
  shows "Orientations (Initialize Pieces ! p)
           = rev (remdups (rev (map BallList (GenerationOrder (Pieces ! p)))))
         \<and> NumOrientations (Initialize Pieces ! p)
           = length (Orientations (Initialize Pieces ! p))
         \<and> (list_all (\<lambda>b. b = BallList (PushUpAndLeft (Pieces ! p)))
                      (map BallList (GenerationOrder (Pieces ! p)))
              \<longrightarrow> NumOrientations (Initialize Pieces ! p) = 1)
         \<and> (distinct (map BallList (GenerationOrder (Pieces ! p)))
              \<longrightarrow> NumOrientations (Initialize Pieces ! p) = 8)"
proof -
  define V where "V = map BallList (GenerationOrder (Pieces ! p))"
  have E: "Initialize Pieces ! p =
     \<lparr>Orientations = rev (remdups (rev V)), NumOrientations = length (remdups (rev V)),
      NumBalls = card (occupied (Pieces ! p))\<rparr>"
    unfolding V_def by (rule Initialize_table_entry [OF assms(1,2)])
  have lenV: "length V = 8" by (simp add: V_def GenerationOrder_def)
  have one: "list_all (\<lambda>b. b = BallList (PushUpAndLeft (Pieces ! p))) V
             \<longrightarrow> length (remdups (rev V)) = 1"
  proof
    assume a: "list_all (\<lambda>b. b = BallList (PushUpAndLeft (Pieces ! p))) V"
    have "V \<noteq> []" using lenV by auto
    then have "set V = {BallList (PushUpAndLeft (Pieces ! p))}"
      using a by (cases V) (auto simp: list_all_iff)
    then have "card (set (rev V)) = 1" by simp
    then show "length (remdups (rev V)) = 1" by (simp only: length_remdups_card_conv)
  qed
  have eight: "distinct V \<longrightarrow> length (remdups (rev V)) = 8"
    by (simp add: distinct_remdups_id lenV)
  show ?thesis
    unfolding V_def [symmetric] E using one eight by simp
qed

theorem Initialize_unique_orientations_witness:
  "(0 :: nat) < NUM_PIECES
   \<and> Cells01 ((OneBall # replicate 11 EllPiece) ! 0) \<and> Cells01 ((OneBall # replicate 11 EllPiece) ! 1)
   \<and> PiecesFit (OneBall # replicate 11 EllPiece)
   \<and> list_all (\<lambda>b. b = BallList (PushUpAndLeft OneBall)) (map BallList (GenerationOrder OneBall))
   \<and> Orientations (Initialize (OneBall # replicate 11 EllPiece) ! 0) = [[(0, 0)]]
   \<and> NumOrientations (Initialize (OneBall # replicate 11 EllPiece) ! 0) = 1
   \<and> distinct (map BallList (GenerationOrder EllPiece))
   \<and> Orientations (Initialize (OneBall # replicate 11 EllPiece) ! 1) =
        [[(0, 0), (1, 0), (2, 0), (2, 1)], [(0, 0), (0, 1), (0, 2), (1, 0)],
         [(0, 0), (0, 1), (1, 1), (2, 1)], [(0, 2), (1, 0), (1, 1), (1, 2)],
         [(0, 0), (0, 1), (1, 0), (2, 0)], [(0, 0), (0, 1), (0, 2), (1, 2)],
         [(0, 1), (1, 1), (2, 0), (2, 1)], [(0, 0), (1, 0), (1, 1), (1, 2)]]
   \<and> NumOrientations (Initialize (OneBall # replicate 11 EllPiece) ! 1) = 8"
proof -
  define Pieces where "Pieces = OneBall # replicate 11 EllPiece"
  have p0: "(0 :: nat) < NUM_PIECES" and p1: "(1 :: nat) < NUM_PIECES" by (simp_all add: NUM_PIECES_def)
  have c0: "Cells01 (Pieces ! 0)" and c1: "Cells01 (Pieces ! 1)"
    by (simp_all add: Pieces_def Cells01_OneBall Cells01_EllPiece)
  have nth: "\<And>q. q < 12 \<Longrightarrow> Pieces ! q = (if q = 0 then OneBall else EllPiece)"
    by (auto simp: Pieces_def nth_Cons split: nat.splits)
  have fit: "PiecesFit Pieces"
    by (simp add: PiecesFit_def list_all_iff NUM_PIECES_def MAX_BALLS_def nth
        occupied_OneBall occupied_EllPiece)
  have h0: "list_all (\<lambda>b. b = BallList (PushUpAndLeft OneBall)) (map BallList (GenerationOrder OneBall))"
    using BallLists_OneBall by (simp add: GenerationOrder_def numeral_eq_Suc)
  have h1: "distinct (map BallList (GenerationOrder EllPiece))"
    unfolding BallLists_EllPiece by simp
  have P0: "Pieces ! 0 = OneBall" and P1: "Pieces ! 1 = EllPiece" by (simp_all add: Pieces_def)
  note T0 = Initialize_unique_orientations [OF p0 c0 fit, unfolded P0]
  note T1 = Initialize_unique_orientations [OF p1 c1 fit, unfolded P1]
  have o0: "Orientations (Initialize Pieces ! 0) = [[(0, 0)]]"
    using T0 by (simp add: BallLists_OneBall numeral_eq_Suc)
  have n0: "NumOrientations (Initialize Pieces ! 0) = 1"
    using T0 h0 by blast
  have o1: "Orientations (Initialize Pieces ! 1) =
        [[(0, 0), (1, 0), (2, 0), (2, 1)], [(0, 0), (0, 1), (0, 2), (1, 0)],
         [(0, 0), (0, 1), (1, 1), (2, 1)], [(0, 2), (1, 0), (1, 1), (1, 2)],
         [(0, 0), (0, 1), (1, 0), (2, 0)], [(0, 0), (0, 1), (0, 2), (1, 2)],
         [(0, 1), (1, 1), (2, 0), (2, 1)], [(0, 0), (1, 0), (1, 1), (1, 2)]]"
    using T1 by (simp add: BallLists_EllPiece)
  have n1: "NumOrientations (Initialize Pieces ! 1) = 8"
    using T1 h1 by blast
  show ?thesis
    using p0 c0 c1 fit h0 o0 n0 h1 o1 n1 unfolding Pieces_def by blast
qed

text \<open>
  C10. After \<open>Initialize\<close>, every stored orientation of a piece has as many balls as the
  field \<open>NumBalls\<close> says, and that is the number of occupied cells of the piece
  definition (for a piece array within the ball capacity).
\<close>

theorem Initialize_NumBalls_every_orientation:
  assumes "p < NUM_PIECES" and "PiecesFit Pieces"
  shows "list_all (\<lambda>Balls. length Balls = NumBalls (Initialize Pieces ! p))
                  (Orientations (Initialize Pieces ! p))
         \<and> NumBalls (Initialize Pieces ! p) = card (occupied (Pieces ! p))"
  using Initialize_NumBalls(1,2) [OF assms(1), of Pieces] by simp

theorem Initialize_NumBalls_every_orientation_witness:
  "(1 :: nat) < NUM_PIECES \<and> PiecesFit (OneBall # replicate 11 EllPiece)
   \<and> list_all (\<lambda>Balls. length Balls = NumBalls (Initialize (OneBall # replicate 11 EllPiece) ! 1))
               (Orientations (Initialize (OneBall # replicate 11 EllPiece) ! 1))
   \<and> NumBalls (Initialize (OneBall # replicate 11 EllPiece) ! 1) = 4"
proof -
  define Pieces where "Pieces = OneBall # replicate 11 EllPiece"
  have p1: "(1 :: nat) < NUM_PIECES" by (simp add: NUM_PIECES_def)
  have nth: "\<And>q. q < 12 \<Longrightarrow> Pieces ! q = (if q = 0 then OneBall else EllPiece)"
    by (auto simp: Pieces_def nth_Cons split: nat.splits)
  have fit: "PiecesFit Pieces"
    by (simp add: PiecesFit_def list_all_iff NUM_PIECES_def MAX_BALLS_def nth
        occupied_OneBall occupied_EllPiece)
  have c: "card (occupied (Pieces ! 1)) = 4" by (simp add: Pieces_def occupied_EllPiece)
  note T = Initialize_NumBalls_every_orientation [OF p1 fit]
  have n: "NumBalls (Initialize Pieces ! 1) = 4" using T c by simp
  show ?thesis
    using p1 fit T n unfolding Pieces_def by blast
qed







text \<open>
  C4, as the code has it. When the scan of a popped state reaches the end of the
  empty-cell list (whether or not pieces remain), a build with assertions (\<^verbatim>\<open>FAST 0\<close>) stops
  at the assertion of line 522; the build in the repository (\<^verbatim>\<open>FAST 1\<close>, which defines
  \<^verbatim>\<open>NDEBUG\<close>) has no assertion and runs the placement loop with the target coordinates
  left unassigned.
\<close>

theorem scan_exhausted_step:
  assumes "\<not> ScanFound env (last (SearchStates st))"
  shows "SolveStep env st =
     (if NDEBUG (Fast env)
      then Inr (TryPieces env (last (SearchStates st)) (Indeterminate env)
                  (st\<lparr>OutNumBoardStatesTested :=
                         (if WITH_STATS (Fast env) then OutNumBoardStatesTested st + 1
                          else OutNumBoardStatesTested st),
                      SearchStates := butlast (SearchStates st)\<rparr>))
      else Inl AssertionFailed)"
  using assms by (simp add: SolveStep_eq TargetOf_exhausted)

text \<open>A board of one blocked cell, the table of twelve one-ball pieces.\<close>

definition BlockedEnv :: "bool \<Rightarrow> solve_env" where
  "BlockedEnv fast =
     \<lparr>Fast = fast, Indeterminate = (7, 7), SearchPieces = replicate 12 OneBallEntry,
      NumRows = 1, NumCols = 1, InputBoardEmptyCells = EmptyCellsOf (RowBoard [Blocked])\<rparr>"

definition BlockedStart :: solve_state where
  "BlockedStart =
     \<lparr>SearchStates = [\<lparr>Board = RowBoard [Blocked],
                       RemainingPieceBitFlags = InitialFlags (RowBoard [Blocked]) 1 1,
                       EmptyCellIdx = 0\<rparr>],
      OutSolutions = [], OutNumBoardStatesTested = 0, OutNumOrientationsTested = 0,
      OutNumBallsTested = 0\<rparr>"

lemma Blocked_scan:
  "\<not> ScanFound (BlockedEnv fast) (last (SearchStates BlockedStart))"
  by code_simp

theorem scan_exhausted_step_witness:
  "\<not> ScanFound (BlockedEnv False) (last (SearchStates BlockedStart))
   \<and> SolveStep (BlockedEnv False) BlockedStart = Inl AssertionFailed"
  using scan_exhausted_step [OF Blocked_scan [of False]] Blocked_scan [of False]
  by (simp add: NDEBUG_def BlockedEnv_def)

theorem scan_exhausted_counterexample:
  "\<not> ScanFound (BlockedEnv FAST) (last (SearchStates BlockedStart))
   \<and> NumRemaining (last (SearchStates BlockedStart)) = 12
   \<and> Outcome (SolveStep (BlockedEnv FAST) BlockedStart) = Inr (0, 0, 0, 0, 0)
   \<and> Outcome (Solve FAST (7, 7) (Initialize (replicate 12 OneBall)) (RowBoard [Blocked]) 1 1 0 0 0)
       = Inr (0, 0, 0, 0, 0)"
  unfolding Initialize_OneBalls by code_simp

lemma Solve_no_empty_shipped:
  assumes "EmptyCellsOf InputBoard = []" "NumRows' \<le> MAX_BOARD_SIZE" "NumCols' \<le> MAX_BOARD_SIZE"
  shows "Solve True Indet Pieces InputBoard NumRows' NumCols' N1 N2 N3 =
           Inr \<lparr>SearchStates = [], OutSolutions = [], OutNumBoardStatesTested = N1,
                OutNumOrientationsTested = N2, OutNumBallsTested = N3\<rparr>"
proof -
  define env where "env = \<lparr>Fast = True, Indeterminate = Indet, SearchPieces = Pieces,
                 NumRows = NumRows', NumCols = NumCols',
                 InputBoardEmptyCells = EmptyCellsOf InputBoard\<rparr>"
  define s0 where "s0 = \<lparr>Board = InputBoard,
             RemainingPieceBitFlags = InitialFlags InputBoard NumRows' NumCols',
             EmptyCellIdx = 0\<rparr>"
  define st0 where "st0 = \<lparr>SearchStates = [s0], OutSolutions = [],
                 OutNumBoardStatesTested = N1,
                 OutNumOrientationsTested = N2,
                 OutNumBallsTested = N3\<rparr>"
  define st1 where "st1 = \<lparr>SearchStates = [], OutSolutions = [], OutNumBoardStatesTested = N1,
                OutNumOrientationsTested = N2, OutNumBallsTested = N3\<rparr>"
  have S: "Solve True Indet Pieces InputBoard NumRows' NumCols' N1 N2 N3 = SolveLoop env st0"
    by (simp add: Solve_def env_def s0_def st0_def WITH_STATS_def assms(1))
  have full: "\<And>cell. InExtents env cell \<Longrightarrow> Board s0 cell \<noteq> Empty"
  proof -
    fix cell :: "int \<times> int"
    obtain r c where cell: "cell = (r, c)" by (cases cell)
    assume "InExtents env cell"
    then have "0 \<le> r \<and> r \<le> 15 \<and> 0 \<le> c \<and> c \<le> 15"
      using assms(2,3) by (auto simp: InExtents_def env_def cell MAX_BOARD_SIZE_def)
    moreover have "set (EmptyCellsOf InputBoard) = {}" using assms(1) by simp
    ultimately show "Board s0 cell \<noteq> Empty"
      by (auto simp: set_EmptyCellsOf cell s0_def)
  qed
  have ch: "Children env s0 (TargetOf env s0) = []" by (rule no_Children) (rule full)
  have fe: "Fast env = True" by (simp add: env_def)
  have ne: "SearchStates st0 \<noteq> []" and e1: "SearchStates st1 = []"
    by (simp_all add: st0_def st1_def)
  have "SolveStep env st0 = Inr (TryPieces env s0 (TargetOf env s0)
          (st0\<lparr>OutNumBoardStatesTested := N1, SearchStates := []\<rparr>))"
    by (simp add: SolveStep_eq st0_def fe NDEBUG_def WITH_STATS_def)
  also have "TryPieces env s0 (TargetOf env s0) (st0\<lparr>OutNumBoardStatesTested := N1, SearchStates := []\<rparr>) = st1"
    by (simp add: TryPieces_eq ch Let_def st0_def st1_def fe WITH_STATS_def)
  finally have step: "SolveStep env st0 = Inr st1" .
  have "SolveLoop env st0 = SolveLoop env st1"
    using step ne by (simp add: SolveLoop.simps [of env st0])
  also have "\<dots> = Inr st1" using e1 by (simp add: SolveLoop.simps [of env st1])
  finally show ?thesis by (simp add: S st1_def)
qed

lemma Solve_no_empty_debug:
  assumes "EmptyCellsOf InputBoard = []"
  shows "Solve False Indet Pieces InputBoard NumRows' NumCols' N1 N2 N3 = Inl AssertionFailed"
proof -
  define env where "env = \<lparr>Fast = False, Indeterminate = Indet, SearchPieces = Pieces,
                 NumRows = NumRows', NumCols = NumCols',
                 InputBoardEmptyCells = EmptyCellsOf InputBoard\<rparr>"
  define s0 where "s0 = \<lparr>Board = InputBoard,
             RemainingPieceBitFlags = InitialFlags InputBoard NumRows' NumCols',
             EmptyCellIdx = 0\<rparr>"
  define st0 where "st0 = \<lparr>SearchStates = [s0], OutSolutions = [],
                 OutNumBoardStatesTested = 0,
                 OutNumOrientationsTested = 0,
                 OutNumBallsTested = (0 :: u64)\<rparr>"
  have S: "Solve False Indet Pieces InputBoard NumRows' NumCols' N1 N2 N3 = SolveLoop env st0"
    by (simp add: Solve_def env_def s0_def st0_def WITH_STATS_def assms)
  have fe: "Fast env = False" by (simp add: env_def)
  have ne: "SearchStates st0 \<noteq> []" by (simp add: st0_def)
  have "\<not> ScanFound env s0" by (rule ScanFound_no_cells) (simp add: env_def assms)
  then have "SolveStep env st0 = Inl AssertionFailed"
    by (simp add: SolveStep_eq st0_def fe NDEBUG_def)
  then have "SolveLoop env st0 = Inl AssertionFailed"
    using ne by (simp add: SolveLoop.simps [of env st0])
  then show ?thesis by (simp add: S)
qed

text \<open>
  C2, as the code has it. For an input board without \<open>Empty\<close> cell, whatever is placed on
  it, \<open>Solve\<close> returns no solution: the build in the repository pops the initial state,
  finds no placement and returns with an empty solution list and an empty stack; a build
  with assertions stops at the assertion of line 522.
\<close>

theorem Solve_without_empty_cell:
  assumes "EmptyCellsOf InputBoard = []"
    and "NumRows' \<le> MAX_BOARD_SIZE" and "NumCols' \<le> MAX_BOARD_SIZE"
  shows "(\<exists>st'. Solve FAST Indet Pieces InputBoard NumRows' NumCols' N1 N2 N3 = Inr st'
               \<and> OutSolutions st' = [] \<and> SearchStates st' = [])
         \<and> Solve (\<not> FAST) Indet Pieces InputBoard NumRows' NumCols' N1 N2 N3
             = Inl AssertionFailed"
  using Solve_no_empty_shipped [OF assms] Solve_no_empty_debug [OF assms(1)]
  by (simp add: FAST_def)

text \<open>The board \<^verbatim>\<open>ABCDEFGHIJKL\<close>: every piece placed, no empty cell.\<close>

definition AllPlacedBoard :: board where
  "AllPlacedBoard = RowBoard [3, 4, 5, 6, 7, 8, 9, 10, 11, 12, 13, 14]"

lemma AllPlacedBoard_no_empty: "EmptyCellsOf AllPlacedBoard = []"
  by code_simp

theorem Solve_without_empty_cell_witness:
  "EmptyCellsOf AllPlacedBoard = [] \<and> (1 :: int) \<le> MAX_BOARD_SIZE \<and> (12 :: int) \<le> MAX_BOARD_SIZE
   \<and> (\<exists>st'. Solve FAST (7, 7) (Initialize (replicate 12 OneBall)) AllPlacedBoard 1 12 0 0 0 = Inr st'
            \<and> OutSolutions st' = [] \<and> SearchStates st' = [])
   \<and> Solve (\<not> FAST) (7, 7) (Initialize (replicate 12 OneBall)) AllPlacedBoard 1 12 0 0 0
       = Inl AssertionFailed"
proof -
  have r: "(1 :: int) \<le> MAX_BOARD_SIZE" "(12 :: int) \<le> MAX_BOARD_SIZE"
    by (simp_all add: MAX_BOARD_SIZE_def)
  show ?thesis
    using Solve_without_empty_cell [OF AllPlacedBoard_no_empty r] AllPlacedBoard_no_empty r
    by blast
qed

theorem all_pieces_placed_counterexample:
  "EmptyCellsOf AllPlacedBoard = []
   \<and> list_all (\<lambda>PieceIdx. list_ex (\<lambda>c. AllPlacedBoard (0, c) = PieceIndexToCellValue PieceIdx) [0..11])
               [0..<NUM_PIECES]
   \<and> RemainingPieceIdxs (InitialFlags AllPlacedBoard 1 12) = [0, 1, 2]
   \<and> Outcome (Solve FAST (7, 7) (Initialize (replicate 12 OneBall)) AllPlacedBoard 1 12 0 0 0)
       = Inr (0, 0, 0, 0, 0)
   \<and> SolutionRows 12 (Solve FAST (7, 7) (Initialize (replicate 12 OneBall)) AllPlacedBoard 1 12 0 0 0)
       = []"
  unfolding Initialize_OneBalls by code_simp

text \<open>
  C6, as the code has it. The state that a placement produces has the fill-cursor of the
  popped state plus one (a \<^verbatim>\<open>u8\<close> increment), which is at most one more than the list
  index of the target cell and may be as small as that index or smaller; its board is the
  popped state's board with the ball cells of the placed orientation set to the piece's
  identifier and every other cell unchanged. A valid attempt pushes exactly this state, or
  records its board when it places the last piece.
\<close>

theorem placement_child:
  "EmptyCellIdx (NewSearchState env s Target p o' a) = (EmptyCellIdx s + 1) mod 256
   \<and> EmptyCellIdx s
       \<le> FindEmptyCell (Board s) (InputBoardEmptyCells env) (EmptyCellIdx s)
   \<and> Board (NewSearchState env s Target p o' a)
       = (\<lambda>cell. if cell \<in> PlacedCells env Target (p, o', a) then PieceIndexToCellValue p
                  else Board s cell)
   \<and> SearchStates (TryPlacement env s Target False p o' a st)
       = SearchStates st @ (if CanPlace env (Board s) Target (p, o', a)
                            then [NewSearchState env s Target p o' a] else [])
   \<and> OutSolutions (TryPlacement env s Target True p o' a st)
       = OutSolutions st @ (if CanPlace env (Board s) Target (p, o', a)
                            then [Board (NewSearchState env s Target p o' a)] else [])"
  by (simp add: EmptyCellIdx_NewSearchState FindEmptyCell_ge Board_NewSearchState fun_eq_iff
      TryPlacement_eq)

text \<open>Nine pieces placed, six empty cells, the table of twelve dominoes.\<close>

definition DominoBoard :: board where
  "DominoBoard = RowBoard [3, 4, 5, 6, 7, 8, 9, 10, 11, 0, 0, 0, 0, 0, 0]"

definition DominoEnv :: solve_env where
  "DominoEnv =
     \<lparr>Fast = FAST, Indeterminate = (7, 7), SearchPieces = replicate 12 DominoEntry,
      NumRows = 1, NumCols = 15, InputBoardEmptyCells = EmptyCellsOf DominoBoard\<rparr>"

definition DominoStart :: solve_state where
  "DominoStart =
     \<lparr>SearchStates = [\<lparr>Board = DominoBoard,
                       RemainingPieceBitFlags = InitialFlags DominoBoard 1 15,
                       EmptyCellIdx = 0\<rparr>],
      OutSolutions = [], OutNumBoardStatesTested = 0, OutNumOrientationsTested = 0,
      OutNumBallsTested = 0\<rparr>"

text \<open>The state that the second iteration pops.\<close>

definition DominoSecond :: search_state where
  "DominoSecond = (case SolveSteps DominoEnv 1 DominoStart of
                     Inr st \<Rightarrow> last (SearchStates st)
                   | Inl e \<Rightarrow> \<lparr>Board = DominoBoard, RemainingPieceBitFlags = 0, EmptyCellIdx = 0\<rparr>)"

theorem placement_child_counterexample:
  "SearchPieces DominoEnv = Initialize (replicate 12 Domino)
   \<and> Outcome (SolveSteps DominoEnv 1 DominoStart) = Inr (3, 0, 0, 0, 0)
   \<and> EmptyCellIdx DominoSecond = 1
   \<and> FindEmptyCell (Board DominoSecond) (InputBoardEmptyCells DominoEnv) (EmptyCellIdx DominoSecond) = 2
   \<and> TargetOf DominoEnv DominoSecond = (0, 11)
   \<and> CanPlace DominoEnv (Board DominoSecond) (0, 11) (0, 0, 0)
   \<and> NumRemaining DominoSecond = 2
   \<and> EmptyCellIdx (NewSearchState DominoEnv DominoSecond (0, 11) 0 0 0) = 2
   \<and> \<not> FindEmptyCell (Board DominoSecond) (InputBoardEmptyCells DominoEnv) (EmptyCellIdx DominoSecond)
        < EmptyCellIdx (NewSearchState DominoEnv DominoSecond (0, 11) 0 0 0)"
proof -
  have "SearchPieces DominoEnv = Initialize (replicate 12 Domino)"
    by (simp add: DominoEnv_def Initialize_Dominoes)
  moreover have "Outcome (SolveSteps DominoEnv 1 DominoStart) = Inr (3, 0, 0, 0, 0)
   \<and> EmptyCellIdx DominoSecond = 1
   \<and> FindEmptyCell (Board DominoSecond) (InputBoardEmptyCells DominoEnv) (EmptyCellIdx DominoSecond) = 2
   \<and> TargetOf DominoEnv DominoSecond = (0, 11)
   \<and> CanPlace DominoEnv (Board DominoSecond) (0, 11) (0, 0, 0)
   \<and> NumRemaining DominoSecond = 2
   \<and> EmptyCellIdx (NewSearchState DominoEnv DominoSecond (0, 11) 0 0 0) = 2
   \<and> \<not> FindEmptyCell (Board DominoSecond) (InputBoardEmptyCells DominoEnv) (EmptyCellIdx DominoSecond)
        < EmptyCellIdx (NewSearchState DominoEnv DominoSecond (0, 11) 0 0 0)"
    by code_simp
  ultimately show ?thesis by blast
qed

text \<open>The three counters of a state, and what they should hold after popping the states \<open>Q\<close>.\<close>

definition Counters :: "solve_state \<Rightarrow> u64 \<times> u64 \<times> u64" where
  "Counters st = (OutNumBoardStatesTested st, OutNumOrientationsTested st, OutNumBallsTested st)"

definition Counted :: "solve_env \<Rightarrow> search_state list \<Rightarrow> u64 \<times> u64 \<times> u64" where
  "Counted env Q =
     (of_nat (length Q), of_nat (sum_list (map (AttemptsOf env) Q)),
      of_nat (sum_list (map (BallChecksOf env) Q)))"

text \<open>
  C3, as the code has it. In a build with statistics (\<^verbatim>\<open>FAST 0\<close>, hence \<^verbatim>\<open>WITH_STATS 1\<close>),
  \<open>Solve\<close> sets the three counters to 0, and after any number \<open>k\<close> of loop iterations, and
  so when it returns, \<open>OutNumBoardStatesTested\<close> holds the number of states popped so far,
  \<open>OutNumOrientationsTested\<close> the number of (piece, orientation, anchor ball) attempts made
  for them and \<open>OutNumBallsTested\<close> the number of ball checks of those attempts, each as a
  64-bit value; these numbers can only grow with \<open>k\<close>. In the build in the repository
  (\<^verbatim>\<open>FAST 1\<close>, hence \<^verbatim>\<open>WITH_STATS 0\<close>) \<open>Solve\<close> never writes the counters: they keep the
  values that the caller's variables held on entry.
\<close>

theorem Solve_counters:
  "(SolveSteps (SolveEnv fast Indet Pieces InputBoard NumRows' NumCols') k
               (SolveStart fast InputBoard NumRows' NumCols' N1 N2 N3) = Inr st
      \<longrightarrow> Counters st =
            (if WITH_STATS fast
             then Counted (SolveEnv fast Indet Pieces InputBoard NumRows' NumCols')
                    (take k (PoppedStates (SolveEnv fast Indet Pieces InputBoard NumRows' NumCols')
                                          (SolveStart fast InputBoard NumRows' NumCols' N1 N2 N3)))
             else (N1, N2, N3)))
   \<and> (Solve fast Indet Pieces InputBoard NumRows' NumCols' N1 N2 N3 = Inr st'
      \<longrightarrow> Counters st' =
            (if WITH_STATS fast
             then Counted (SolveEnv fast Indet Pieces InputBoard NumRows' NumCols')
                    (PoppedStates (SolveEnv fast Indet Pieces InputBoard NumRows' NumCols')
                                  (SolveStart fast InputBoard NumRows' NumCols' N1 N2 N3))
             else (N1, N2, N3)))
   \<and> \<not> WITH_STATS FAST \<and> WITH_STATS (\<not> FAST)"
proof -
  define env where "env = SolveEnv fast Indet Pieces InputBoard NumRows' NumCols'"
  define st0 where "st0 = SolveStart fast InputBoard NumRows' NumCols' N1 N2 N3"
  have f: "Fast env = fast" by (simp add: env_def SolveEnv_def)
  have c0: "Counters st0 = (if WITH_STATS fast then (0, 0, 0) else (N1, N2, N3))"
    by (simp add: Counters_def st0_def SolveStart_def)
  have a: "SolveSteps env k st0 = Inr st \<longrightarrow> Counters st =
            (if WITH_STATS fast then Counted env (take k (PoppedStates env st0)) else (N1, N2, N3))"
  proof
    assume "SolveSteps env k st0 = Inr st"
    from SolveSteps_counters [OF this] c0
    show "Counters st =
            (if WITH_STATS fast then Counted env (take k (PoppedStates env st0)) else (N1, N2, N3))"
      by (simp add: f Counters_def Counted_def split: if_splits)
  qed
  have b: "Solve fast Indet Pieces InputBoard NumRows' NumCols' N1 N2 N3 = Inr st' \<longrightarrow> Counters st' =
            (if WITH_STATS fast then Counted env (PoppedStates env st0) else (N1, N2, N3))"
  proof
    assume "Solve fast Indet Pieces InputBoard NumRows' NumCols' N1 N2 N3 = Inr st'"
    then have "SolveLoop env st0 = Inr st'" unfolding env_def st0_def by (rule Solve_Inr)
    from SolveLoop_counters [OF this] c0
    show "Counters st' =
            (if WITH_STATS fast then Counted env (PoppedStates env st0) else (N1, N2, N3))"
      by (simp add: f Counters_def Counted_def split: if_splits)
  qed
  show ?thesis
    using a b unfolding env_def st0_def by (simp add: WITH_STATS_def FAST_def)
qed

text \<open>The board \<^verbatim>\<open>ABCDEFGHI...\<close> with the table of twelve one-ball pieces.\<close>

definition ThreeEmptyBoard :: board where
  "ThreeEmptyBoard = RowBoard [3, 4, 5, 6, 7, 8, 9, 10, 11, 0, 0, 0]"

definition ThreeEmptyEnv :: "bool \<Rightarrow> solve_env" where
  "ThreeEmptyEnv fast = SolveEnv fast (7, 7) (replicate 12 OneBallEntry) ThreeEmptyBoard 1 12"

definition ThreeEmptyStart :: "bool \<Rightarrow> solve_state" where
  "ThreeEmptyStart fast = SolveStart fast ThreeEmptyBoard 1 12 5 6 7"

lemma ThreeEmpty_popped:
  "Counted (ThreeEmptyEnv fast) (PoppedStates (ThreeEmptyEnv fast) (ThreeEmptyStart fast))
   = (10, 15, 15)"
  by (cases fast) (simp_all only:, code_simp+)

lemma ThreeEmpty_outcome:
  "Outcome (Solve (\<not> FAST) (7, 7) (replicate 12 OneBallEntry) ThreeEmptyBoard 1 12 5 6 7)
   = Inr (0, 6, 10, 15, 15)"
  by code_simp

theorem Solve_counters_witness:
  "Outcome (Solve (\<not> FAST) (7, 7) (Initialize (replicate 12 OneBall)) ThreeEmptyBoard 1 12 5 6 7)
     = Inr (0, 6, 10, 15, 15)
   \<and> Counted (ThreeEmptyEnv (\<not> FAST))
        (PoppedStates (ThreeEmptyEnv (\<not> FAST)) (ThreeEmptyStart (\<not> FAST))) = (10, 15, 15)
   \<and> (\<exists>st'. Solve (\<not> FAST) (7, 7) (Initialize (replicate 12 OneBall)) ThreeEmptyBoard 1 12 5 6 7
               = Inr st'
             \<and> Counters st' = Counted (ThreeEmptyEnv (\<not> FAST))
                  (PoppedStates (ThreeEmptyEnv (\<not> FAST)) (ThreeEmptyStart (\<not> FAST))))"
proof -
  obtain st' where s: "Solve (\<not> FAST) (7, 7) (replicate 12 OneBallEntry) ThreeEmptyBoard 1 12 5 6 7
      = Inr st'"
    using ThreeEmpty_outcome
    by (cases "Solve (\<not> FAST) (7, 7) (replicate 12 OneBallEntry) ThreeEmptyBoard 1 12 5 6 7")
       (simp_all add: Outcome_def)
  have w: "WITH_STATS (\<not> FAST)" by (simp add: WITH_STATS_def FAST_def)
  have "Counters st' = Counted (ThreeEmptyEnv (\<not> FAST))
                  (PoppedStates (ThreeEmptyEnv (\<not> FAST)) (ThreeEmptyStart (\<not> FAST)))"
    using Solve_counters [of "\<not> FAST" "(7, 7)" "replicate 12 OneBallEntry" ThreeEmptyBoard 1 12 k
        5 6 7 st st'] s w
    unfolding ThreeEmptyEnv_def ThreeEmptyStart_def by simp
  then show ?thesis
    using s ThreeEmpty_outcome ThreeEmpty_popped [of "\<not> FAST"]
    unfolding Initialize_OneBalls by blast
qed

theorem Solve_counters_counterexample:
  "Outcome (Solve FAST (7, 7) (Initialize (replicate 12 OneBall)) ThreeEmptyBoard 1 12 5 6 7)
     = Inr (0, 6, 5, 6, 7)
   \<and> Counted (ThreeEmptyEnv FAST) (PoppedStates (ThreeEmptyEnv FAST) (ThreeEmptyStart FAST))
     = (10, 15, 15)"
proof -
  have "Outcome (Solve FAST (7, 7) (replicate 12 OneBallEntry) ThreeEmptyBoard 1 12 5 6 7)
     = Inr (0, 6, 5, 6, 7)"
    by code_simp
  then show ?thesis
    using ThreeEmpty_popped [of FAST] unfolding Initialize_OneBalls by blast
qed

text \<open>
  A table with a domino for J and one ball for each of the other pieces, and the board
  \<^verbatim>\<open>ABCDEFGHI....\<close>: A to I are placed and four cells are empty, as many as the balls of J,
  K and L, the pieces not on the board.
\<close>

definition MixedPieces :: "piece_definition list" where
  "MixedPieces = replicate 9 OneBall @ [Domino, OneBall, OneBall]"

definition MixedTable :: "search_piece list" where
  "MixedTable = replicate 9 OneBallEntry @ [DominoEntry, OneBallEntry, OneBallEntry]"

definition FourEmptyBoard :: board where
  "FourEmptyBoard = RowBoard [3, 4, 5, 6, 7, 8, 9, 10, 11, 0, 0, 0, 0]"

lemma Initialize_MixedPieces: "Initialize MixedPieces = MixedTable"
proof (rule nth_equalityI)
  show "length (Initialize MixedPieces) = length MixedTable"
    by (simp add: length_Initialize NUM_PIECES_def MixedTable_def)
next
  fix p assume "p < length (Initialize MixedPieces)"
  then have p: "p < 12" "p < NUM_PIECES" by (simp_all add: length_Initialize NUM_PIECES_def)
  have b: "map BallList (GenerationOrder OneBall) =
      [[(0, 0)], [(0, 0)], [(0, 0)], [(0, 0)], [(0, 0)], [(0, 0)], [(0, 0)], [(0, 0)]]"
    unfolding BallLists_OneBall by (simp add: numeral_eq_Suc)
  show "Initialize MixedPieces ! p = MixedTable ! p"
  proof (cases "p = 9")
    case True
    have r: "MixedPieces ! p = Domino" using True by (simp add: MixedPieces_def nth_append)
    have c: "Cells01 (MixedPieces ! p)" by (simp add: r Cells01_Domino)
    have "Initialize MixedPieces ! p = DominoEntry"
      unfolding Initialize_table_entry [OF p(2) c] r BallLists_Domino occupied_Domino DominoEntry_def
      by simp
    then show ?thesis using True by (simp add: MixedTable_def nth_append)
  next
    case False
    have r: "MixedPieces ! p = OneBall"
      using False p(1) by (auto simp: MixedPieces_def nth_append nth_Cons split: nat.splits)
    have c: "Cells01 (MixedPieces ! p)" by (simp add: r Cells01_OneBall)
    have "Initialize MixedPieces ! p = OneBallEntry"
      unfolding Initialize_table_entry [OF p(2) c] r b occupied_OneBall OneBallEntry_def by simp
    moreover have "MixedTable ! p = OneBallEntry"
      using False p(1) by (auto simp: MixedTable_def nth_append nth_Cons split: nat.splits)
    ultimately show ?thesis by simp
  qed
qed

text \<open>
  C5 on a board with placed pieces. Setup takes the piece index of a placed cell to be its
  value \<open>AND 15\<close>, which is the index plus 3 (piece A has the value 3), so on the board
  \<^verbatim>\<open>ABCDEFGHI....\<close> it strikes D to L from the remaining set and leaves A, B and C. The
  six boards that \<open>Solve\<close> returns hold A, B and C a second time, never J, K or L, and keep
  the last cell \<open>Empty\<close>: three balls are placed on four empty cells.
\<close>

theorem placed_pieces_evaluation:
  "CellValueToPieceIndex (PieceIndexToCellValue 0) = 3
   \<and> EmptyCellsOf FourEmptyBoard = [(0, 9), (0, 10), (0, 11), (0, 12)]
   \<and> map NumBalls (Initialize MixedPieces) = [1, 1, 1, 1, 1, 1, 1, 1, 1, 2, 1, 1]
   \<and> RemainingPieceIdxs (InitialFlags FourEmptyBoard 1 13) = [0, 1, 2]
   \<and> SolutionRows 13 (Solve FAST (7, 7) (Initialize MixedPieces) FourEmptyBoard 1 13 0 0 0) =
       [[3, 4, 5, 6, 7, 8, 9, 10, 11, 5, 4, 3, 0],
        [3, 4, 5, 6, 7, 8, 9, 10, 11, 5, 3, 4, 0],
        [3, 4, 5, 6, 7, 8, 9, 10, 11, 4, 5, 3, 0],
        [3, 4, 5, 6, 7, 8, 9, 10, 11, 4, 3, 5, 0],
        [3, 4, 5, 6, 7, 8, 9, 10, 11, 3, 5, 4, 0],
        [3, 4, 5, 6, 7, 8, 9, 10, 11, 3, 4, 5, 0]]"
  unfolding Initialize_MixedPieces by code_simp

text \<open>
  C1, for boards that hold no piece. Let the piece table be one that \<open>Initialize\<close> builds
  (twelve entries, 1 to \<open>MAX_BALLS\<close> distinct balls in every orientation), the logical
  extents lie within the grid, every cell of the grid outside the extents be \<open>Invalid\<close>, no
  cell of the extents hold a piece (so all twelve pieces remain), and the board have as many
  \<open>Empty\<close> cells as the twelve pieces have balls. Then \<open>Solve\<close> returns, in either build,
  and the boards it returns are exactly the complete tilings: the input board with every
  one of the twelve pieces written once, in one of its stored orientations, on \<open>Empty\<close> cells
  of the extents, no two pieces sharing a cell and every \<open>Empty\<close> cell covered. No returned
  board has an \<open>Empty\<close> cell in the extents.
\<close>

theorem Solve_complete_tilings:
  assumes "WellFormedTable Pieces"
    and "NumRows' \<le> MAX_BOARD_SIZE" and "NumCols' \<le> MAX_BOARD_SIZE"
    and "list_all (\<lambda>x. InExtents (SolveEnv fast Indet Pieces InputBoard NumRows' NumCols') x
                        \<or> InputBoard x = Invalid) board_cells"
    and "list_all (\<lambda>x. \<not> IsPiece (InputBoard x)) (List.product [0..NumRows' - 1] [0..NumCols' - 1])"
    and "length (EmptyCellsOf InputBoard) = sum_list (map NumBalls Pieces)"
  shows "\<exists>st'. Solve fast Indet Pieces InputBoard NumRows' NumCols' N1 N2 N3 = Inr st'
           \<and> set (OutSolutions st')
               = Tilings (SolveEnv fast Indet Pieces InputBoard NumRows' NumCols') InputBoard
                   [0..<NUM_PIECES]
           \<and> (\<forall>b \<in> set (OutSolutions st').
                 EmptyIn (SolveEnv fast Indet Pieces InputBoard NumRows' NumCols') b = {})"
proof -
  define env where "env = SolveEnv fast Indet Pieces InputBoard NumRows' NumCols'"
  have rs: "RemainingPieceIdxs (InitialFlags InputBoard NumRows' NumCols') = [0..<NUM_PIECES]"
    using assms(5) by (rule InitialFlags_no_pieces)
  have len: "length (SearchPieces env) = NUM_PIECES"
    using assms(1) by (simp add: env_def SolveEnv_def WellFormedTable_def)
  have cnt: "length (EmptyCellsOf InputBoard)
             = BallsOf env (RemainingPieceIdxs (InitialFlags InputBoard NumRows' NumCols'))"
    unfolding rs BallsOf_all [OF len] using assms(6) by (simp add: env_def SolveEnv_def)
  have ne: "RemainingPieceIdxs (InitialFlags InputBoard NumRows' NumCols') \<noteq> []"
    unfolding rs by (simp add: NUM_PIECES_def)
  have cap: "length (EmptyCellsOf InputBoard) \<le> NUM_VALID_CELLS"
    using WellFormedTable_balls [OF assms(1)] assms(6) by simp
  obtain st' where s: "Solve fast Indet Pieces InputBoard NumRows' NumCols' N1 N2 N3 = Inr st'"
    and o: "set (OutSolutions st') = Tilings env InputBoard [0..<NUM_PIECES]"
    using Solve_tilings_remaining [OF assms(1,2,3,4) cnt [unfolded env_def] ne cap, of N1 N2 N3]
    unfolding rs env_def by blast
  have "\<forall>b \<in> set (OutSolutions st'). EmptyIn env b = {}"
    unfolding o using Tilings_no_Empty [of _ env InputBoard "[0..<NUM_PIECES]"] by simp
  then show ?thesis using s o unfolding env_def by blast
qed

text \<open>Twelve one-ball pieces and a row of twelve empty cells.\<close>

definition TwelveEmptyBoard :: board where
  "TwelveEmptyBoard = RowBoard (replicate 12 Empty)"

theorem Solve_complete_tilings_witness:
  "WellFormedTable (Initialize (replicate 12 OneBall))
   \<and> (1 :: int) \<le> MAX_BOARD_SIZE \<and> (12 :: int) \<le> MAX_BOARD_SIZE
   \<and> list_all (\<lambda>x. InExtents (SolveEnv FAST (7, 7) (Initialize (replicate 12 OneBall))
                                   TwelveEmptyBoard 1 12) x
                    \<or> TwelveEmptyBoard x = Invalid) board_cells
   \<and> list_all (\<lambda>x. \<not> IsPiece (TwelveEmptyBoard x)) (List.product [0..1 - 1] [0..12 - 1])
   \<and> length (EmptyCellsOf TwelveEmptyBoard)
       = sum_list (map NumBalls (Initialize (replicate 12 OneBall)))
   \<and> (\<exists>st'. Solve FAST (7, 7) (Initialize (replicate 12 OneBall)) TwelveEmptyBoard 1 12 0 0 0
               = Inr st'
         \<and> set (OutSolutions st')
             = Tilings (SolveEnv FAST (7, 7) (Initialize (replicate 12 OneBall))
                          TwelveEmptyBoard 1 12) TwelveEmptyBoard [0..<NUM_PIECES]
         \<and> (\<forall>b \<in> set (OutSolutions st').
               EmptyIn (SolveEnv FAST (7, 7) (Initialize (replicate 12 OneBall))
                          TwelveEmptyBoard 1 12) b = {}))"
proof -
  have h1: "WellFormedTable (Initialize (replicate 12 OneBall))"
    unfolding Initialize_OneBalls by code_simp
  have h2: "(1 :: int) \<le> MAX_BOARD_SIZE" and h3: "(12 :: int) \<le> MAX_BOARD_SIZE"
    by (simp_all add: MAX_BOARD_SIZE_def)
  have h4: "list_all (\<lambda>x. InExtents (SolveEnv FAST (7, 7) (Initialize (replicate 12 OneBall))
                                   TwelveEmptyBoard 1 12) x
                    \<or> TwelveEmptyBoard x = Invalid) board_cells"
    unfolding InExtents_SolveEnv by code_simp
  have h5: "list_all (\<lambda>x. \<not> IsPiece (TwelveEmptyBoard x)) (List.product [0..1 - 1] [0..12 - 1])"
    by code_simp
  have h6: "length (EmptyCellsOf TwelveEmptyBoard)
       = sum_list (map NumBalls (Initialize (replicate 12 OneBall)))"
    unfolding Initialize_OneBalls by code_simp
  show ?thesis
    using Solve_complete_tilings [OF h1 h2 h3 h4 h5 h6, of 0 0 0] h1 h2 h3 h4 h5 h6
    by blast
qed

text \<open>
  The board \<^verbatim>\<open>*ABCDEFGHIJKL\<close>: one blocked cell, every piece placed, no empty cell and so no
  piece left to place. The board is its own complete tiling, and \<open>Solve\<close> returns no board.
\<close>

definition NothingToPlaceBoard :: board where
  "NothingToPlaceBoard = RowBoard [Blocked, 3, 4, 5, 6, 7, 8, 9, 10, 11, 12, 13, 14]"

definition NothingToPlaceEnv :: solve_env where
  "NothingToPlaceEnv = SolveEnv FAST (7, 7) (replicate 12 OneBallEntry) NothingToPlaceBoard 1 13"

lemma NothingToPlace_no_empty: "EmptyCellsOf NothingToPlaceBoard = []"
  by code_simp

lemma NothingToPlace_tiling: "Tilings NothingToPlaceEnv NothingToPlaceBoard [] = {NothingToPlaceBoard}"
proof -
  have "NumRows NothingToPlaceEnv \<le> MAX_BOARD_SIZE" "NumCols NothingToPlaceEnv \<le> MAX_BOARD_SIZE"
    by (simp_all add: NothingToPlaceEnv_def SolveEnv_def MAX_BOARD_SIZE_def)
  then have "EmptyIn NothingToPlaceEnv NothingToPlaceBoard \<subseteq> set (EmptyCellsOf NothingToPlaceBoard)"
    by (rule EmptyIn_subset_cells)
  then have "EmptyIn NothingToPlaceEnv NothingToPlaceBoard = {}"
    by (simp add: NothingToPlace_no_empty)
  then show ?thesis by (simp add: Tilings_Nil)
qed

theorem nothing_to_place_counterexample:
  "SearchPieces NothingToPlaceEnv = Initialize (replicate 12 OneBall)
   \<and> list_all (\<lambda>x. InExtents NothingToPlaceEnv x \<or> NothingToPlaceBoard x = Invalid) board_cells
   \<and> list_all (\<lambda>PieceIdx. list_ex (\<lambda>c. NothingToPlaceBoard (0, c) = PieceIndexToCellValue PieceIdx)
                               [0..12])
               [0..<NUM_PIECES]
   \<and> length (EmptyCellsOf NothingToPlaceBoard) = 0
   \<and> Tilings NothingToPlaceEnv NothingToPlaceBoard [] = {NothingToPlaceBoard}
   \<and> Outcome (Solve FAST (7, 7) (Initialize (replicate 12 OneBall)) NothingToPlaceBoard 1 13 0 0 0)
       = Inr (0, 0, 0, 0, 0)
   \<and> Solve (\<not> FAST) (7, 7) (Initialize (replicate 12 OneBall)) NothingToPlaceBoard 1 13 0 0 0
       = Inl AssertionFailed"
proof -
  have a: "SearchPieces NothingToPlaceEnv = Initialize (replicate 12 OneBall)"
    by (simp add: NothingToPlaceEnv_def SolveEnv_def Initialize_OneBalls)
  have b: "list_all (\<lambda>x. InExtents NothingToPlaceEnv x \<or> NothingToPlaceBoard x = Invalid) board_cells"
    unfolding NothingToPlaceEnv_def InExtents_SolveEnv by code_simp
  have c: "list_all (\<lambda>PieceIdx. list_ex (\<lambda>c. NothingToPlaceBoard (0, c) = PieceIndexToCellValue PieceIdx)
                               [0..12])
               [0..<NUM_PIECES]"
    by code_simp
  have d: "length (EmptyCellsOf NothingToPlaceBoard) = 0"
    by (simp add: NothingToPlace_no_empty)
  have e: "Outcome (Solve FAST (7, 7) (Initialize (replicate 12 OneBall)) NothingToPlaceBoard 1 13 0 0 0)
       = Inr (0, 0, 0, 0, 0)"
    unfolding Initialize_OneBalls by code_simp
  have f: "Solve (\<not> FAST) (7, 7) (Initialize (replicate 12 OneBall)) NothingToPlaceBoard 1 13 0 0 0
       = Inl AssertionFailed"
    using Solve_no_empty_debug [OF NothingToPlace_no_empty] by (simp add: FAST_def)
  show ?thesis using a b c d NothingToPlace_tiling e f by blast
qed

end
